theory Spec2Isabelle
  imports Complex_Main "HOL-Library.Multiset"
begin

section \<open>Termination criteria over the outcome log (scrape.ts)\<close>

text \<open>
  The scraper records one entry \<open>{id, is404}\<close> per processed ID. IDs are JavaScript
  numbers holding integers, modelled as \<open>int\<close>; counters and lengths are \<open>nat\<close>.
  The 404 rate is a JavaScript double obtained by dividing two array lengths; it is
  modelled as the exact rational quotient. Division of doubles is correctly rounded
  and rounding is monotone, so the two comparisons can differ only when the quotient
  lies within a rounding error of the threshold without being equal to it; a quotient
  \<open>k / n\<close> with \<open>n \<le> 4500\<close> is equal to \<open>0.95\<close> or at least \<open>1 / 90000\<close> away from it.
  The three thresholds are local constants of the source (\<open>3000\<close>, \<open>4500\<close>,
  \<open>0.95\<close>); the functions below take them as a record so that small windows can be
  evaluated, and \<open>scrape_criteria\<close> holds the source values.
\<close>

type_synonym result = "int \<times> bool"

record criteria =
  minConsecutive404s :: nat
  windowSize :: nat
  min404Rate :: rat

definition scrape_criteria :: criteria where
  "scrape_criteria = \<lparr>minConsecutive404s = 3000, windowSize = 4500, min404Rate = 95 / 100\<rparr>"

text \<open>
  \<open>k / n >= r\<close> on JavaScript numbers: \<open>0 / 0\<close> is NaN and every comparison with NaN
  is false.
\<close>

definition rate_ge :: "nat \<Rightarrow> nat \<Rightarrow> rat \<Rightarrow> bool" where
  "rate_ge k n r = (n \<noteq> 0 \<and> r \<le> of_nat k / of_nat n)"

text \<open>\<open>xs.slice(-n)\<close>: the last \<open>n\<close> elements; \<open>slice(-0)\<close> is \<open>slice(0)\<close>, the whole array.\<close>

definition slice_last :: "nat \<Rightarrow> 'a list \<Rightarrow> 'a list" where
  "slice_last n xs = (if n = 0 then xs else drop (length xs - n) xs)"

text \<open>
  The loop \<open>for (i = length - 1; i >= 0; i--) if (recentResults[i]?.is404) c++ else break\<close>.
  The second argument is \<open>i + 1\<close>.
\<close>

fun count_trailing :: "bool list \<Rightarrow> nat \<Rightarrow> nat \<Rightarrow> nat" where
  "count_trailing w 0 c = c"
| "count_trailing w (Suc i) c = (if w ! i then count_trailing w i (c + 1) else c)"

text \<open>The body of the worker's stopping check, on the window \<open>recentResults\<close>.\<close>

definition window_decision :: "criteria \<Rightarrow> result list \<Rightarrow> bool" where
  "window_decision cr recentResults =
     (let recent404s = filter snd recentResults;
          consecutive = count_trailing (map snd recentResults) (length recentResults) 0
      in minConsecutive404s cr \<le> consecutive
         \<and> rate_ge (length recent404s) (length recentResults) (min404Rate cr))"

text \<open>
  The worker's stopping check on the shared log \<open>results\<close>: only when the log holds at
  least \<open>windowSize\<close> entries, sort a copy by ID (\<open>Array.prototype.sort\<close> is stable, as is
  \<open>sort_key\<close>), take the last \<open>windowSize\<close> entries and decide on them.
\<close>

definition check_stop :: "criteria \<Rightarrow> result list \<Rightarrow> bool" where
  "check_stop cr results =
     (if windowSize cr \<le> length results
      then window_decision cr (slice_last (windowSize cr) (sort_key fst results))
      else False)"

subsection \<open>The criteria as the specification words them\<close>

definition trailingNotFound :: "result list \<Rightarrow> nat" where
  "trailingNotFound w = length (takeWhile snd (rev w))"

definition notFoundRate :: "result list \<Rightarrow> rat" where
  "notFoundRate w = of_nat (length (filter snd w)) / of_nat (length w)"

section \<open>The arrival-order window of findMaxWhiskyId\<close>

text \<open>
  \<open>w.push(x); if (w.length > windowSize) w.shift()\<close>. The source window is a
  \<open>boolean[]\<close>; the function is polymorphic so that entries can be tagged with the
  probed ID when a statement is about IDs.
\<close>

definition push_window :: "nat \<Rightarrow> 'a \<Rightarrow> 'a list \<Rightarrow> 'a list" where
  "push_window W x w = (let w' = w @ [x] in if W < length w' then tl w' else w')"

text \<open>
  Both phases of \<open>findMaxWhiskyId\<close> keep a running counter of consecutive 404s and a
  window of booleans (\<open>consecutive404s\<close>/\<open>recentResults\<close> in phase 1,
  \<open>binarySearch404s\<close>/\<open>binarySearchWindow\<close> in phase 2), updated per probe in arrival
  order: a 404 increments the counter and pushes \<open>true\<close>, anything else resets the
  counter and pushes \<open>false\<close>.
\<close>

record tracker =
  consecutive404s :: nat
  recentResults :: "bool list"

definition tracker0 :: tracker where
  "tracker0 = \<lparr>consecutive404s = 0, recentResults = []\<rparr>"

definition record_outcome :: "criteria \<Rightarrow> tracker \<Rightarrow> bool \<Rightarrow> tracker" where
  "record_outcome cr t is404 =
     \<lparr>consecutive404s = (if is404 then consecutive404s t + 1 else 0),
      recentResults = push_window (windowSize cr) is404 (recentResults t)\<rparr>"

text \<open>
  \<open>recent404Rate = w.length >= windowSize ? w.filter(r => r).length / w.length : 0\<close>
  and the test \<open>counter >= minConsecutive404s && recent404Rate >= min404Rate\<close>.
\<close>

definition criteria_met :: "criteria \<Rightarrow> tracker \<Rightarrow> bool" where
  "criteria_met cr t =
     (minConsecutive404s cr \<le> consecutive404s t
      \<and> (if windowSize cr \<le> length (recentResults t)
         then rate_ge (length (filter id (recentResults t))) (length (recentResults t)) (min404Rate cr)
         else min404Rate cr \<le> 0))"

text \<open>
  The tracker after a sequence of probes, each tagged with the probed ID. The ID plays
  no part: \<open>findMaxWhiskyId\<close> stores booleans only.
\<close>

definition record_all :: "criteria \<Rightarrow> result list \<Rightarrow> tracker" where
  "record_all cr probes = foldl (\<lambda>t r. record_outcome cr t (snd r)) tracker0 probes"

section \<open>Properties of the termination decision\<close>

lemma count_trailing_takeWhile:
  "i \<le> length w \<Longrightarrow> count_trailing w i c = c + length (takeWhile id (rev (take i w)))"
proof (induction i arbitrary: c)
  case 0
  then show ?case by simp
next
  case (Suc i)
  then have lt: "i < length w" by simp
  then have tk: "take (Suc i) w = take i w @ [w ! i]"
    by (simp add: take_Suc_conv_app_nth)
  show ?case
  proof (cases "w ! i")
    case True
    with Suc lt tk show ?thesis by simp
  next
    case False
    with tk show ?thesis by simp
  qed
qed

lemma count_trailing_full:
  "count_trailing (map snd w) (length w) 0 = trailingNotFound w"
proof -
  have "count_trailing (map snd w) (length (map snd w)) 0
          = length (takeWhile id (rev (map snd w)))"
    using count_trailing_takeWhile [of "length (map snd w)" "map snd w" 0] by simp
  also have "\<dots> = length (takeWhile snd (rev w))"
    by (simp add: rev_map takeWhile_map comp_def)
  finally show ?thesis by (simp add: trailingNotFound_def)
qed

lemma window_decision_spec:
  "w \<noteq> [] \<Longrightarrow>
     window_decision cr w
       = (minConsecutive404s cr \<le> trailingNotFound w \<and> min404Rate cr \<le> notFoundRate w)"
  by (simp add: window_decision_def count_trailing_full rate_ge_def notFoundRate_def)

text \<open>
  C5. The stopping decision over a window is true exactly when the run of NotFound
  outcomes at the high-ID end of the window is at least \<open>minConsecutive404s\<close> long and
  the fraction of NotFound outcomes in the window is at least \<open>min404Rate\<close>. The worker
  takes this decision on the \<open>windowSize\<close> highest IDs of the log, once the log holds
  that many entries.
\<close>

theorem stop_decision_iff:
  "(w \<noteq> [] \<longrightarrow>
      window_decision cr w
        = (minConsecutive404s cr \<le> trailingNotFound w \<and> min404Rate cr \<le> notFoundRate w))
   \<and> check_stop cr results
       = (windowSize cr \<le> length results
          \<and> window_decision cr (slice_last (windowSize cr) (sort_key fst results)))"
  by (simp add: window_decision_spec check_stop_def)

text \<open>
  The example of the specification: thresholds 3, 5 and 0.6, outcomes of IDs 1..5 equal
  to Found, Found, NotFound, NotFound, NotFound. The trailing run is 3, the rate is
  3/5, and the decision is to stop.
\<close>

theorem stop_decision_example:
  "[(1::int, False), (2, False), (3, True), (4, True), (5, True)] \<noteq> []
   \<and> slice_last 5 (sort_key fst [(1::int, False), (2, False), (3, True), (4, True), (5, True)])
       = [(1, False), (2, False), (3, True), (4, True), (5, True)]
   \<and> trailingNotFound [(1::int, False), (2, False), (3, True), (4, True), (5, True)] = 3
   \<and> notFoundRate [(1::int, False), (2, False), (3, True), (4, True), (5, True)] = 6 / 10
   \<and> window_decision \<lparr>minConsecutive404s = 3, windowSize = 5, min404Rate = 6 / 10\<rparr>
       [(1, False), (2, False), (3, True), (4, True), (5, True)]
   \<and> check_stop \<lparr>minConsecutive404s = 3, windowSize = 5, min404Rate = 6 / 10\<rparr>
       [(1, False), (2, False), (3, True), (4, True), (5, True)]"
  using stop_decision_iff
    [of "[(1, False), (2, False), (3, True), (4, True), (5, True)]"
        "\<lparr>minConsecutive404s = 3, windowSize = 5, min404Rate = 6 / 10\<rparr>"
        "[(1, False), (2, False), (3, True), (4, True), (5, True)]"]
  by (simp add: slice_last_def trailingNotFound_def notFoundRate_def)

section \<open>Order of arrival and the decision\<close>

lemma sort_key_perm:
  assumes "mset xs = mset ys" and "distinct (map fst xs)"
  shows "sort_key fst xs = sort_key fst (ys :: result list)"
proof -
  have inj: "inj_on fst (set xs)" using assms(2) by (simp add: distinct_map)
  have ms: "mset xs = mset (sort_key fst ys)" using assms(1) by simp
  have srt: "sorted (map fst (sort_key fst ys))" by simp
  show ?thesis by (rule sort_key_inj_key_eq [OF ms inj srt])
qed

lemma check_stop_perm:
  assumes "mset xs = mset ys" and "distinct (map fst xs)"
  shows "check_stop cr xs = check_stop cr ys"
proof -
  have "length xs = length ys" using assms(1) by (rule mset_eq_length)
  moreover have "sort_key fst xs = sort_key fst ys" using assms by (rule sort_key_perm)
  ultimately show ?thesis by (simp add: check_stop_def)
qed

section \<open>Window bounds and eviction\<close>

lemma push_window_length: "length w \<le> W \<Longrightarrow> length (push_window W x w) \<le> W"
  by (auto simp: push_window_def Let_def)

lemma push_window_full: "length w = W \<Longrightarrow> push_window W x w = tl (w @ [x])"
  by (simp add: push_window_def)

lemma slice_last_length: "0 < W \<Longrightarrow> length (slice_last W xs) \<le> W"
  by (simp add: slice_last_def)

lemma slice_last_highest:
  assumes "a \<in> set (slice_last W (sort_key fst rs))"
      and "b \<in> set rs" and "b \<notin> set (slice_last W (sort_key fst rs))"
  shows "fst b \<le> fst (a :: result)"
proof (cases "W = 0")
  case True
  with assms show ?thesis by (simp add: slice_last_def)
next
  case False
  define s where "s = sort_key fst rs"
  define n where "n = length s - W"
  from False have sl: "slice_last W s = drop n s" by (simp add: slice_last_def n_def)
  have "sorted (map fst (take n s @ drop n s))" by (simp add: s_def)
  then have le: "\<forall>x\<in>set (take n s). \<forall>y\<in>set (drop n s). fst x \<le> fst y"
    unfolding map_append sorted_append by auto
  have "set s = set (take n s) \<union> set (drop n s)"
    by (metis append_take_drop_id set_append)
  then have "b \<in> set (take n s) \<union> set (drop n s)" using assms(2) by (simp add: s_def)
  moreover have "b \<notin> set (drop n s)" using assms(3) sl by (simp add: s_def)
  ultimately have "b \<in> set (take n s)" by auto
  moreover have "a \<in> set (drop n s)" using assms(1) sl by (simp add: s_def)
  ultimately show ?thesis using le by blast
qed

text \<open>
  C8 (as amended). Every window holds at most \<open>W\<close> entries after an insertion. A full
  window of \<open>findMaxWhiskyId\<close> (either phase) evicts its first element, the entry
  that arrived earliest. The worker pool's window, the last \<open>W\<close> entries of the log
  sorted by ID, holds at most \<open>W\<close> entries for \<open>W > 0\<close>, and every entry of the log
  left out of it has an ID no higher than any entry in it.
\<close>

theorem window_bound_and_eviction:
  "(length w \<le> W \<longrightarrow> length (push_window W x w) \<le> W)
   \<and> (length w = W \<longrightarrow> push_window W x w = tl (w @ [x]))
   \<and> (0 < W \<longrightarrow> length (slice_last W (sort_key fst rs)) \<le> W)
   \<and> (\<forall>a\<in>set (slice_last W (sort_key fst rs)). \<forall>b\<in>set rs.
         b \<notin> set (slice_last W (sort_key fst rs)) \<longrightarrow> fst b \<le> fst (a :: result))"
  using push_window_length [of w W x] push_window_full [of w W x]
    slice_last_length [of W "sort_key fst rs"] slice_last_highest [of _ W rs]
  by blast

theorem window_bound_and_eviction_witness:
  "length [True, True] \<le> (2::nat)
   \<and> length (push_window 2 False [True, True]) \<le> 2
   \<and> push_window 2 False [True, True] = [True, False]
   \<and> (0::nat) < 2
   \<and> slice_last 2 (sort_key fst [(3::int, True), (1, False), (2, True)]) = [(2, True), (3, True)]
   \<and> (1, False) \<in> set [(3::int, True), (1, False), (2, True)]
   \<and> (1, False) \<notin> set (slice_last 2 (sort_key fst [(3::int, True), (1, False), (2, True)]))
   \<and> fst (1::int, False) \<le> fst (2::int, True)"
  using window_bound_and_eviction [of "[True, True]" 2 False "[(3, True), (1, False), (2, True)]"]
  by (simp add: push_window_def slice_last_def)

text \<open>
  C8 as stated fails for \<open>findMaxWhiskyId\<close>. With \<open>W = 2\<close> and the probes of IDs 8 and
  6 in the window, inserting the probe of ID 5 evicts the entry of ID 8, the first to
  arrive and the highest ID, while the lower IDs 6 and 5 stay.
\<close>

theorem boundary_window_evicts_by_arrival:
  "push_window 2 (5::int, False) [(8, True), (6, True)] = [(6, True), (5, False)]
   \<and> hd ([(8::int, True), (6, True)] @ [(5, False)]) = (8, True)"
  by (simp add: push_window_def)

section \<open>BatchBuffer and saveWhiskyDataBatch (scrape.ts)\<close>

text \<open>
  JavaScript runs one turn at a time; a turn ends at an \<open>await\<close>. The buffer is
  modelled as a record that each turn transforms. The external store is the
  environment: the \<open>k\<close>-th upsert issued (counting from 0) succeeds iff \<open>ok k\<close>, for
  an arbitrary \<open>ok\<close>. The writes of one chunk (whisky rows, pricing, rating) are taken
  as one upsert. Two logs are kept for stating properties: \<open>saveCalls\<close>, the batches
  passed by \<open>flush\<close> to \<open>saveWhiskyDataBatch\<close>, and \<open>upserts\<close>, the chunks issued to
  the store.

  \<open>saveWhiskyDataBatch\<close>: an empty batch returns at once; a batch longer than
  \<open>CHUNK_SIZE\<close> is cut by the loop \<open>for (i = 0; i < length; i += CHUNK_SIZE)\<close> into
  \<open>batch.slice(i, i + CHUNK_SIZE)\<close>, each saved by a recursive call (which writes it
  directly, being short enough); any other batch is written directly.
\<close>

definition CHUNK_SIZE :: nat where "CHUNK_SIZE = 25"

function chunk_loop :: "'r list \<Rightarrow> nat \<Rightarrow> 'r list list" where
  "chunk_loop batch i =
     (if i < length batch
      then take CHUNK_SIZE (drop i batch) # chunk_loop batch (i + CHUNK_SIZE)
      else [])"
  by pat_completeness auto
termination
  by (relation "measure (\<lambda>(batch, i). length batch - i)") (auto simp: CHUNK_SIZE_def)

declare chunk_loop.simps [simp del]

definition save_chunks :: "'r list \<Rightarrow> 'r list list" where
  "save_chunks batch =
     (if batch = [] then []
      else if CHUNK_SIZE < length batch then chunk_loop batch 0
      else [batch])"

text \<open>
  The fields of the class. \<open>flushPromise\<close> is \<open>None\<close> for \<open>null\<close>; a pending promise
  carries the batch being saved and its chunks from the one whose upsert is awaited
  onwards. \<open>flushInterval\<close> tells whether the timer is armed.
\<close>

record 'r batch_buffer =
  buffer :: "'r list"
  flushing :: bool
  batchSize :: nat
  flushInterval :: bool
  flushPromise :: "('r list \<times> 'r list list) option"
  totalBatchesSaved :: nat
  totalWhiskiesSaved :: nat
  saveCalls :: "'r list list"
  upserts :: "'r list list"

definition new_buffer :: "nat \<Rightarrow> 'r batch_buffer" where
  "new_buffer n =
     \<lparr>buffer = [], flushing = False, batchSize = n, flushInterval = False,
      flushPromise = None, totalBatchesSaved = 0, totalWhiskiesSaved = 0,
      saveCalls = [], upserts = []\<rparr>"

definition startAutoFlush :: "'r batch_buffer \<Rightarrow> 'r batch_buffer" where
  "startAutoFlush s = s\<lparr>flushInterval := True\<rparr>"

definition stopAutoFlush :: "'r batch_buffer \<Rightarrow> 'r batch_buffer" where
  "stopAutoFlush s = (if flushInterval s then s\<lparr>flushInterval := False\<rparr> else s)"

text \<open>
  The part of \<open>flush\<close> that runs when no flush is in flight and the buffer is not
  empty, up to its first \<open>await\<close>: set \<open>flushing\<close>, snapshot and swap the buffer,
  call \<open>saveWhiskyDataBatch\<close> on the snapshot, which issues the upsert of the first
  chunk.
\<close>

definition begin_flush :: "'r batch_buffer \<Rightarrow> 'r batch_buffer" where
  "begin_flush s =
     (let batch = buffer s; chunks = save_chunks batch
      in s\<lparr>flushing := True, buffer := [],
           flushPromise := Some (batch, chunks),
           saveCalls := saveCalls s @ [batch],
           upserts := upserts s @ take 1 chunks\<rparr>)"

text \<open>
  \<open>flush()\<close> as called without \<open>await\<close> by \<open>add\<close> and by the timer, up to its
  first \<open>await\<close>. With a flush in flight the call would wait for it; that branch is
  not reached from \<open>add\<close> or the timer, which call \<open>flush\<close> only when \<open>flushing\<close> is
  false, and \<open>flushing\<close> is false exactly when \<open>flushPromise\<close> is \<open>null\<close> (lemma
  \<open>run_consistent\<close> below).
\<close>

definition flush_start :: "'r batch_buffer \<Rightarrow> 'r batch_buffer" where
  "flush_start s =
     (case flushPromise s of
        Some p \<Rightarrow> s
      | None \<Rightarrow> if buffer s = [] then s else begin_flush s)"

definition add :: "'r \<Rightarrow> 'r batch_buffer \<Rightarrow> 'r batch_buffer" where
  "add data s =
     (let s1 = s\<lparr>buffer := buffer s @ [data]\<rparr>
      in if batchSize s1 \<le> length (buffer s1) \<and> \<not> flushing s1 then flush_start s1 else s1)"

definition timer_tick :: "'r batch_buffer \<Rightarrow> 'r batch_buffer" where
  "timer_tick s =
     (if flushInterval s \<and> buffer s \<noteq> [] \<and> \<not> flushing s then flush_start s else s)"

text \<open>
  The awaited upsert returns. On success the next chunk is issued, or after the last
  chunk the counters are updated; the \<open>finally\<close> block runs on success of the last
  chunk and on any failure (the rejection is logged by the caller's \<open>catch\<close>; the
  remaining chunks are never issued).
\<close>

definition flush_finally :: "'r batch_buffer \<Rightarrow> 'r batch_buffer" where
  "flush_finally s = s\<lparr>flushing := False, flushPromise := None\<rparr>"

definition chunk_done :: "(nat \<Rightarrow> bool) \<Rightarrow> 'r batch_buffer \<Rightarrow> 'r batch_buffer" where
  "chunk_done ok s =
     (case flushPromise s of
        None \<Rightarrow> s
      | Some (batch, chunks) \<Rightarrow>
          if ok (length (upserts s) - 1)
          then (case tl chunks of
                  [] \<Rightarrow> flush_finally
                          (s\<lparr>totalBatchesSaved := totalBatchesSaved s + 1,
                             totalWhiskiesSaved := totalWhiskiesSaved s + length batch\<rparr>)
                | c # cs \<Rightarrow> s\<lparr>flushPromise := Some (batch, tl chunks),
                               upserts := upserts s @ [c]\<rparr>)
          else flush_finally s)"

text \<open>
  \<open>settle\<close> awaits the flush in flight: its upserts return one by one until the
  promise settles. The flag is false when the promise rejects.
\<close>

definition pending_chunks :: "'r batch_buffer \<Rightarrow> nat" where
  "pending_chunks s = (case flushPromise s of None \<Rightarrow> 0 | Some (batch, chunks) \<Rightarrow> Suc (length chunks))"

definition flush_failed :: "(nat \<Rightarrow> bool) \<Rightarrow> 'r batch_buffer \<Rightarrow> bool" where
  "flush_failed ok s = (flushPromise s \<noteq> None \<and> \<not> ok (length (upserts s) - 1))"

lemma pending_chunk_done:
  assumes "flushPromise s \<noteq> None"
  shows "pending_chunks (chunk_done ok s) < pending_chunks s"
proof (cases "flushPromise s")
  case None
  with assms show ?thesis by simp
next
  case (Some p)
  obtain batch chunks where p: "p = (batch, chunks)" by (cases p)
  show ?thesis
  proof (cases chunks)
    case Nil
    with Some p show ?thesis
      by (simp add: pending_chunks_def chunk_done_def flush_finally_def)
  next
    case (Cons c cs)
    with Some p show ?thesis
      by (cases cs) (simp_all add: pending_chunks_def chunk_done_def flush_finally_def)
  qed
qed

function settle :: "(nat \<Rightarrow> bool) \<Rightarrow> 'r batch_buffer \<Rightarrow> 'r batch_buffer \<times> bool" where
  "settle ok s =
     (if flushPromise s = None then (s, True)
      else if flush_failed ok s then (chunk_done ok s, False)
      else settle ok (chunk_done ok s))"
  by pat_completeness auto
termination
proof (relation "measure (\<lambda>(ok, s). pending_chunks s)")
  show "wf (measure (\<lambda>(ok :: nat \<Rightarrow> bool, s :: 'r batch_buffer). pending_chunks s))"
    by simp
next
  fix ok :: "nat \<Rightarrow> bool" and s :: "'r batch_buffer"
  assume "flushPromise s \<noteq> None"
  then show "((ok, chunk_done ok s), (ok, s)) \<in> measure (\<lambda>(ok, s). pending_chunks s)"
    by (simp add: pending_chunk_done)
qed


declare settle.simps [simp del]

text \<open>
  \<open>await this.flush()\<close>. After waiting for a flush in flight, \<open>flush\<close> calls itself
  when the buffer has reached \<open>batchSize\<close>; no flush is in flight then, so the inner
  call is the snapshot path \<open>flush_idle\<close>. The flag is false when the call throws.
\<close>

definition flush_idle :: "(nat \<Rightarrow> bool) \<Rightarrow> 'r batch_buffer \<Rightarrow> 'r batch_buffer \<times> bool" where
  "flush_idle ok s = (if buffer s = [] then (s, True) else settle ok (begin_flush s))"

definition flush_await :: "(nat \<Rightarrow> bool) \<Rightarrow> 'r batch_buffer \<Rightarrow> 'r batch_buffer \<times> bool" where
  "flush_await ok s =
     (if flushPromise s \<noteq> None
      then (case settle ok s of
              (s1, False) \<Rightarrow> (s1, False)
            | (s1, True) \<Rightarrow>
                if batchSize s1 \<le> length (buffer s1) then flush_idle ok s1 else (s1, True))
      else flush_idle ok s)"

lemma chunk_done_buffer [simp]: "buffer (chunk_done ok s) = buffer s"
  by (simp add: chunk_done_def flush_finally_def split: option.splits list.splits prod.splits)

lemma chunk_done_saveCalls [simp]: "saveCalls (chunk_done ok s) = saveCalls s"
  by (simp add: chunk_done_def flush_finally_def split: option.splits list.splits prod.splits)

lemma chunk_done_batchSize [simp]: "batchSize (chunk_done ok s) = batchSize s"
  by (simp add: chunk_done_def flush_finally_def split: option.splits list.splits prod.splits)

lemma chunk_done_flushInterval [simp]: "flushInterval (chunk_done ok s) = flushInterval s"
  by (simp add: chunk_done_def flush_finally_def split: option.splits list.splits prod.splits)

lemma chunk_done_failed [simp]: "flush_failed ok s \<Longrightarrow> flushPromise (chunk_done ok s) = None"
  by (auto simp: chunk_done_def flush_finally_def flush_failed_def split: option.splits)

lemma chunk_done_failed_flushing [simp]: "flush_failed ok s \<Longrightarrow> \<not> flushing (chunk_done ok s)"
  by (auto simp: chunk_done_def flush_finally_def flush_failed_def split: option.splits)

lemma settle_buffer [simp]: "buffer (fst (settle ok s)) = buffer s"
  by (induction ok s rule: settle.induct) (subst settle.simps, simp)

lemma settle_saveCalls [simp]: "saveCalls (fst (settle ok s)) = saveCalls s"
  by (induction ok s rule: settle.induct) (subst settle.simps, simp)

lemma settle_batchSize [simp]: "batchSize (fst (settle ok s)) = batchSize s"
  by (induction ok s rule: settle.induct) (subst settle.simps, simp)

lemma settle_flushInterval [simp]: "flushInterval (fst (settle ok s)) = flushInterval s"
  by (induction ok s rule: settle.induct) (subst settle.simps, simp)

lemma settle_flushPromise [simp]: "flushPromise (fst (settle ok s)) = None"
  by (induction ok s rule: settle.induct) (subst settle.simps, simp)

lemma settle_idle: "flushPromise s = None \<Longrightarrow> settle ok s = (s, True)"
  by (subst settle.simps) simp

definition consistent :: "'r batch_buffer \<Rightarrow> bool" where
  "consistent s = (flushing s = (flushPromise s \<noteq> None))"

lemma chunk_done_consistent: "consistent s \<Longrightarrow> consistent (chunk_done ok s)"
  by (auto simp: consistent_def chunk_done_def flush_finally_def split: option.splits list.splits)

lemma settle_flushing [simp]: "consistent s \<Longrightarrow> \<not> flushing (fst (settle ok s))"
proof (induction ok s rule: settle.induct)
  case (1 ok s)
  show ?case
  proof (cases "flushPromise s")
    case None
    with "1.prems" show ?thesis by (simp add: settle_idle consistent_def)
  next
    case (Some p)
    then have ne: "flushPromise s \<noteq> None" by simp
    show ?thesis
    proof (cases "flush_failed ok s")
      case True
      with Some show ?thesis by (subst settle.simps) simp
    next
      case False
      from "1.IH" [OF ne False chunk_done_consistent [OF "1.prems"]] Some False
      show ?thesis by (subst settle.simps) simp
    qed
  qed
qed


text \<open>
  The loop of \<open>flushAll\<close>: while the buffer is not empty, \<open>await this.flush()\<close>; on
  an error clear the buffer and leave the loop.
\<close>

definition drain_measure :: "'r batch_buffer \<Rightarrow> nat" where
  "drain_measure s = 2 * length (buffer s) + (if flushPromise s = None then 0 else 1)"

lemma begin_flush_fields [simp]:
  "buffer (begin_flush s) = []"
  "saveCalls (begin_flush s) = saveCalls s @ [buffer s]"
  "batchSize (begin_flush s) = batchSize s"
  "flushInterval (begin_flush s) = flushInterval s"
  "flushing (begin_flush s)"
  "flushPromise (begin_flush s) = Some (buffer s, save_chunks (buffer s))"
  by (simp_all add: begin_flush_def Let_def)

lemma flush_idle_fields [simp]:
  "buffer (fst (flush_idle ok s)) = []"
  "flushPromise s = None \<Longrightarrow> flushPromise (fst (flush_idle ok s)) = None"
  "batchSize (fst (flush_idle ok s)) = batchSize s"
  "flushInterval (fst (flush_idle ok s)) = flushInterval s"
  "saveCalls (fst (flush_idle ok s)) = saveCalls s @ (if buffer s = [] then [] else [buffer s])"
  by (simp_all add: flush_idle_def)

lemma flush_await_measure:
  assumes "buffer s \<noteq> []"
  shows "drain_measure (fst (flush_await ok s)) < drain_measure s"
proof (cases "flushPromise s")
  case None
  with assms show ?thesis by (simp add: flush_await_def drain_measure_def)
next
  case (Some p)
  obtain s1 r where st: "settle ok s = (s1, r)" by (cases "settle ok s")
  then have s1: "buffer s1 = buffer s" "flushPromise s1 = None"
    using settle_buffer [of ok s] settle_flushPromise [of ok s] by simp_all
  show ?thesis
  proof (cases r)
    case False
    with Some st s1 show ?thesis by (simp add: flush_await_def drain_measure_def)
  next
    case True
    with Some st s1 assms show ?thesis by (simp add: flush_await_def drain_measure_def)
  qed
qed

function drain :: "(nat \<Rightarrow> bool) \<Rightarrow> 'r batch_buffer \<Rightarrow> 'r batch_buffer" where
  "drain ok s =
     (if buffer s \<noteq> []
      then (let r = flush_await ok s
            in if snd r then drain ok (fst r) else (fst r)\<lparr>buffer := []\<rparr>)
      else s)"
  by pat_completeness auto
termination
proof (relation "measure (\<lambda>(ok, s). drain_measure s)")
  show "wf (measure (\<lambda>(ok :: nat \<Rightarrow> bool, s :: 'r batch_buffer). drain_measure s))"
    by simp
next
  fix ok :: "nat \<Rightarrow> bool" and s :: "'r batch_buffer" and r
  assume "buffer s \<noteq> []" and "r = flush_await ok s"
  then show "((ok, fst r), (ok, s)) \<in> measure (\<lambda>(ok, s). drain_measure s)"
    by (simp add: flush_await_measure)
qed

declare drain.simps [simp del]

text \<open>
  \<open>flushAll\<close>, run with no other turn interleaved (the workers have ended): stop the
  timer, wait for the flush in flight ignoring its error, then drain.
\<close>

definition flushAll :: "(nat \<Rightarrow> bool) \<Rightarrow> 'r batch_buffer \<Rightarrow> 'r batch_buffer" where
  "flushAll ok s =
     (let s1 = stopAutoFlush s;
          s2 = (if flushPromise s1 \<noteq> None then fst (settle ok s1) else s1)
      in drain ok s2)"

text \<open>
  Turns that may interleave before the final \<open>flushAll\<close>: a worker adds a record, the
  timer fires, the awaited upsert returns.
\<close>

datatype 'r event = Add 'r | Tick | Done

fun step :: "(nat \<Rightarrow> bool) \<Rightarrow> 'r event \<Rightarrow> 'r batch_buffer \<Rightarrow> 'r batch_buffer" where
  "step ok (Add data) s = add data s"
| "step ok Tick s = timer_tick s"
| "step ok Done s = chunk_done ok s"

fun run :: "(nat \<Rightarrow> bool) \<Rightarrow> 'r event list \<Rightarrow> 'r batch_buffer \<Rightarrow> 'r batch_buffer" where
  "run ok [] s = s"
| "run ok (e # es) s = run ok es (step ok e s)"

fun added :: "'r event list \<Rightarrow> 'r list" where
  "added [] = []"
| "added (Add data # es) = data # added es"
| "added (Tick # es) = added es"
| "added (Done # es) = added es"

text \<open>
  Records added one by one, each flush started by an \<open>add\<close> completing before the
  next \<open>add\<close>.
\<close>

fun sync_feed :: "(nat \<Rightarrow> bool) \<Rightarrow> 'r list \<Rightarrow> 'r batch_buffer \<Rightarrow> 'r batch_buffer" where
  "sync_feed ok [] s = s"
| "sync_feed ok (data # rest) s = sync_feed ok rest (fst (settle ok (add data s)))"

definition handed_over :: "'r batch_buffer \<Rightarrow> 'r list" where
  "handed_over s = concat (saveCalls s) @ buffer s"

lemma flush_start_handed [simp]: "handed_over (flush_start s) = handed_over s"
  by (simp add: flush_start_def handed_over_def split: option.splits)

lemma step_handed: "handed_over (step ok e s) = handed_over s @ added [e]"
proof (cases e)
  case (Add data)
  have "handed_over (s\<lparr>buffer := buffer s @ [data]\<rparr>) = handed_over s @ [data]"
    by (simp add: handed_over_def)
  with Add show ?thesis by (simp add: add_def Let_def)
next
  case Tick
  then show ?thesis by (simp add: timer_tick_def)
next
  case Done
  then show ?thesis by (simp add: handed_over_def)
qed

lemma added_append: "added (es @ fs) = added es @ added fs"
  by (induction es rule: added.induct) simp_all

lemma run_handed: "handed_over (run ok es s) = handed_over s @ added es"
proof (induction es arbitrary: s)
  case Nil
  then show ?case by simp
next
  case (Cons e es)
  have "added (e # es) = added [e] @ added es"
    using added_append [of "[e]" es] by simp
  with Cons show ?case by (simp add: step_handed)
qed

lemma begin_flush_consistent: "consistent (begin_flush s)"
  by (simp add: consistent_def)

lemma flush_start_consistent: "consistent s \<Longrightarrow> consistent (flush_start s)"
  by (simp add: flush_start_def begin_flush_consistent split: option.splits)

lemma buffer_update_consistent [simp]: "consistent (s\<lparr>buffer := b\<rparr>) = consistent s"
  by (simp add: consistent_def)

lemma step_consistent: "consistent s \<Longrightarrow> consistent (step ok e s)"
  by (cases e)
    (simp_all add: add_def Let_def timer_tick_def flush_start_consistent chunk_done_consistent)

lemma run_consistent: "consistent s \<Longrightarrow> consistent (run ok es s)"
  by (induction es arbitrary: s) (simp_all add: step_consistent)

lemma new_buffer_consistent:
  "consistent (new_buffer n)" "consistent (startAutoFlush (new_buffer n))"
  by (simp_all add: consistent_def new_buffer_def startAutoFlush_def)

lemma drain_props:
  "flushPromise s = None \<Longrightarrow>
     saveCalls (drain ok s) = saveCalls s @ (if buffer s = [] then [] else [buffer s])
     \<and> buffer (drain ok s) = [] \<and> flushPromise (drain ok s) = None
     \<and> flushInterval (drain ok s) = flushInterval s"
proof (induction ok s rule: drain.induct)
  case (1 ok s)
  show ?case
  proof (cases "buffer s = []")
    case True
    with "1.prems" show ?thesis by (subst (1 2 3 4) drain.simps) simp
  next
    case False
    define r where "r = flush_await ok s"
    from "1.prems" have r: "r = flush_idle ok s" by (simp add: r_def flush_await_def)
    have f: "buffer (fst r) = []" "flushPromise (fst r) = None"
      "saveCalls (fst r) = saveCalls s @ [buffer s]" "flushInterval (fst r) = flushInterval s"
      using "1.prems" False by (simp_all add: r)
    show ?thesis
    proof (cases "snd r")
      case True
      from "1.IH" [OF False r_def True f(2)] f False True
      show ?thesis by (subst (1 2 3 4) drain.simps) (simp add: r_def [symmetric] Let_def)
    next
      case nok: False
      with f False show ?thesis
        by (subst (1 2 3 4) drain.simps) (simp add: r_def [symmetric] Let_def)
    qed
  qed
qed


lemma stopAutoFlush_fields [simp]:
  "buffer (stopAutoFlush s) = buffer s"
  "saveCalls (stopAutoFlush s) = saveCalls s"
  "upserts (stopAutoFlush s) = upserts s"
  "flushPromise (stopAutoFlush s) = flushPromise s"
  "flushing (stopAutoFlush s) = flushing s"
  "batchSize (stopAutoFlush s) = batchSize s"
  "\<not> flushInterval (stopAutoFlush s)"
  by (simp_all add: stopAutoFlush_def)

lemma flushAll_props:
  "saveCalls (flushAll ok s) = saveCalls s @ (if buffer s = [] then [] else [buffer s])
   \<and> buffer (flushAll ok s) = [] \<and> flushPromise (flushAll ok s) = None
   \<and> \<not> flushInterval (flushAll ok s)"
proof -
  define s2 where
    "s2 = (if flushPromise (stopAutoFlush s) \<noteq> None
           then fst (settle ok (stopAutoFlush s)) else stopAutoFlush s)"
  have f: "flushPromise s2 = None" "buffer s2 = buffer s" "saveCalls s2 = saveCalls s"
    "\<not> flushInterval s2"
    by (cases "flushPromise s"; simp add: s2_def)+
  have "flushAll ok s = drain ok s2" by (simp add: flushAll_def s2_def Let_def)
  with drain_props [OF f(1), of ok] f show ?thesis by simp
qed

lemma sync_feed_sizes:
  "flushPromise s = None \<Longrightarrow> \<not> flushing s \<Longrightarrow> length (buffer s) < batchSize s \<Longrightarrow>
     map length (saveCalls (sync_feed ok rs s))
       = map length (saveCalls s)
           @ replicate ((length (buffer s) + length rs) div batchSize s) (batchSize s)
     \<and> length (buffer (sync_feed ok rs s)) = (length (buffer s) + length rs) mod batchSize s
     \<and> flushPromise (sync_feed ok rs s) = None
     \<and> batchSize (sync_feed ok rs s) = batchSize s"
proof (induction rs arbitrary: s)
  case Nil
  then show ?case by simp
next
  case (Cons r rs)
  define B where "B = batchSize s"
  define s' where "s' = fst (settle ok (add r s))"
  show ?case
  proof (cases "B \<le> length (buffer s) + 1")
    case True
    with Cons.prems have len: "length (buffer s) + 1 = B" by (simp add: B_def)
    have a: "add r s = begin_flush (s\<lparr>buffer := buffer s @ [r]\<rparr>)"
      using True Cons.prems by (simp add: add_def Let_def flush_start_def B_def)
    have c: "consistent (add r s)" by (simp add: a consistent_def)
    have f: "flushPromise s' = None" "\<not> flushing s'" "buffer s' = []" "batchSize s' = B"
      "saveCalls s' = saveCalls s @ [buffer s @ [r]]"
      using c by (simp_all add: s'_def) (simp_all add: a B_def)
    have pos: "0 < B" using len by simp
    from Cons.prems pos have "length (buffer s') < batchSize s'" by (simp add: f)
    from Cons.IH [OF f(1) f(2) this]
    have ih: "map length (saveCalls (sync_feed ok rs s'))
                = map length (saveCalls s') @ replicate (length rs div B) B"
      "length (buffer (sync_feed ok rs s')) = length rs mod B"
      "flushPromise (sync_feed ok rs s') = None"
      "batchSize (sync_feed ok rs s') = B"
      by (simp_all add: f)
    have e: "length (buffer s) + length (r # rs) = B + length rs" using len by simp
    have d: "(length (buffer s) + length (r # rs)) div B = Suc (length rs div B)"
      and m: "(length (buffer s) + length (r # rs)) mod B = length rs mod B"
      unfolding e using pos by simp_all
    show ?thesis
      unfolding B_def [symmetric] d m
      using ih len by (simp add: s'_def [symmetric] f)
  next
    case False
    then have lt: "length (buffer s) + 1 < B" by simp
    have a: "add r s = s\<lparr>buffer := buffer s @ [r]\<rparr>"
      using False by (simp add: add_def Let_def B_def)
    have s': "s' = s\<lparr>buffer := buffer s @ [r]\<rparr>"
      using Cons.prems by (simp add: s'_def a settle_idle)
    have "flushPromise s' = None" "\<not> flushing s'" "length (buffer s') < batchSize s'"
      using Cons.prems lt by (simp_all add: s' B_def)
    from Cons.IH [OF this] show ?thesis
      by (simp add: s'_def [symmetric]) (simp add: s')
  qed
qed


definition unsent :: "'r batch_buffer \<Rightarrow> 'r list list" where
  "unsent s = (case flushPromise s of None \<Rightarrow> [] | Some (batch, chunks) \<Rightarrow> tl chunks)"

definition chunks_inv :: "'r batch_buffer \<Rightarrow> bool" where
  "chunks_inv s = (upserts s @ unsent s = concat (map save_chunks (saveCalls s)))"

definition always_ok :: "nat \<Rightarrow> bool" where
  "always_ok k = True"

definition never_ok :: "nat \<Rightarrow> bool" where
  "never_ok k = False"

lemma concat_chunk_loop: "concat (chunk_loop batch i) = drop i batch"
proof (induction batch i rule: chunk_loop.induct)
  case (1 batch i)
  show ?case
  proof (cases "i < length batch")
    case True
    then have u: "chunk_loop batch i
                    = take CHUNK_SIZE (drop i batch) # chunk_loop batch (i + CHUNK_SIZE)"
      by (subst chunk_loop.simps) simp
    have k: "take CHUNK_SIZE (drop i batch) @ drop (i + CHUNK_SIZE) batch = drop i batch"
      using append_take_drop_id [of CHUNK_SIZE "drop i batch"] by (simp add: add.commute)
    show ?thesis unfolding u using "1.IH" [OF True] k by simp
  next
    case False
    then show ?thesis by (subst chunk_loop.simps) simp
  qed
qed

lemma concat_save_chunks: "concat (save_chunks batch) = batch"
  by (simp add: save_chunks_def concat_chunk_loop)

lemma take1_tl: "take (Suc 0) xs @ tl xs = xs"
  by (cases xs) simp_all

lemma begin_flush_chunks:
  "flushPromise s = None \<Longrightarrow> chunks_inv s \<Longrightarrow> chunks_inv (begin_flush s)"
  by (simp add: chunks_inv_def unsent_def begin_flush_def Let_def take1_tl)

lemma flush_start_chunks: "chunks_inv s \<Longrightarrow> chunks_inv (flush_start s)"
  by (auto simp: flush_start_def begin_flush_chunks split: option.splits)

lemma buffer_update_chunks [simp]: "chunks_inv (s\<lparr>buffer := b\<rparr>) = chunks_inv s"
  by (simp add: chunks_inv_def unsent_def)

lemma chunk_done_chunks:
  assumes "chunks_inv s" and "\<forall>k. ok k"
  shows "chunks_inv (chunk_done ok s)"
proof (cases "flushPromise s")
  case None
  with assms show ?thesis by (simp add: chunk_done_def)
next
  case (Some p)
  obtain batch chunks where p: "p = (batch, chunks)" by (cases p)
  show ?thesis
  proof (cases "tl chunks")
    case Nil
    with Some p assms show ?thesis
      by (simp add: chunk_done_def chunks_inv_def unsent_def flush_finally_def)
  next
    case (Cons c cs)
    with Some p assms show ?thesis
      by (simp add: chunk_done_def chunks_inv_def unsent_def)
  qed
qed

lemma step_chunks:
  assumes "chunks_inv s" and "\<forall>k. ok k"
  shows "chunks_inv (step ok e s)"
proof (cases e)
  case (Add data)
  with assms show ?thesis by (simp add: add_def Let_def flush_start_chunks)
next
  case Tick
  with assms show ?thesis by (simp add: timer_tick_def flush_start_chunks)
next
  case Done
  with assms show ?thesis by (simp add: chunk_done_chunks)
qed

lemma run_chunks: "chunks_inv s \<Longrightarrow> \<forall>k. ok k \<Longrightarrow> chunks_inv (run ok es s)"
  by (induction es arbitrary: s) (simp_all add: step_chunks)

lemma settle_chunks: "chunks_inv s \<Longrightarrow> \<forall>k. ok k \<Longrightarrow> chunks_inv (fst (settle ok s))"
proof (induction ok s rule: settle.induct)
  case (1 ok s)
  show ?case
  proof (cases "flushPromise s")
    case None
    with "1.prems" show ?thesis by (simp add: settle_idle)
  next
    case (Some p)
    then have ne: "flushPromise s \<noteq> None" by simp
    from "1.prems" have nf: "\<not> flush_failed ok s" by (simp add: flush_failed_def)
    from "1.IH" [OF ne nf chunk_done_chunks [OF "1.prems"] "1.prems"(2)] Some nf
    show ?thesis by (subst settle.simps) simp
  qed
qed

lemma flush_idle_chunks:
  "flushPromise s = None \<Longrightarrow> chunks_inv s \<Longrightarrow> \<forall>k. ok k \<Longrightarrow> chunks_inv (fst (flush_idle ok s))"
  by (simp add: flush_idle_def settle_chunks begin_flush_chunks)

lemma drain_chunks:
  "flushPromise s = None \<Longrightarrow> chunks_inv s \<Longrightarrow> \<forall>k. ok k \<Longrightarrow> chunks_inv (drain ok s)"
proof (induction ok s rule: drain.induct)
  case (1 ok s)
  show ?case
  proof (cases "buffer s = []")
    case True
    with "1.prems" show ?thesis by (subst drain.simps) simp
  next
    case False
    define r where "r = flush_await ok s"
    from "1.prems" have r: "r = flush_idle ok s" by (simp add: r_def flush_await_def)
    have f: "flushPromise (fst r) = None" "chunks_inv (fst r)"
      using "1.prems" by (simp_all add: r flush_idle_chunks)
    show ?thesis
    proof (cases "snd r")
      case True
      from "1.IH" [OF False r_def True f "1.prems"(3)] False True
      show ?thesis by (subst drain.simps) (simp add: r_def [symmetric] Let_def)
    next
      case nok: False
      with f False show ?thesis
        by (subst drain.simps) (simp add: r_def [symmetric] Let_def)
    qed
  qed
qed

lemma flushAll_chunks:
  assumes "chunks_inv s" and "\<forall>k. ok k"
  shows "upserts (flushAll ok s) = concat (map save_chunks (saveCalls (flushAll ok s)))"
proof -
  define s2 where
    "s2 = (if flushPromise (stopAutoFlush s) \<noteq> None
           then fst (settle ok (stopAutoFlush s)) else stopAutoFlush s)"
  have c1: "chunks_inv (stopAutoFlush s)"
    using assms(1) by (simp add: chunks_inv_def unsent_def)
  have f: "flushPromise s2 = None"
    by (cases "flushPromise s"; simp add: s2_def)
  have c2: "chunks_inv s2"
    using c1 assms(2) by (simp add: s2_def settle_chunks)
  have fa: "flushAll ok s = drain ok s2" by (simp add: flushAll_def s2_def Let_def)
  have "chunks_inv (flushAll ok s)" unfolding fa using f c2 assms(2) by (rule drain_chunks)
  moreover have "flushPromise (flushAll ok s) = None" using flushAll_props [of ok s] by simp
  ultimately show ?thesis by (simp add: chunks_inv_def unsent_def)
qed

lemma concat_concat_save_chunks: "concat (concat (map save_chunks bs)) = concat bs"
  by (induction bs) (simp_all add: concat_save_chunks)


lemma fresh_chunks: "chunks_inv (startAutoFlush (new_buffer n))"
  by (simp add: chunks_inv_def unsent_def startAutoFlush_def new_buffer_def)

text \<open>
  C1. Whatever the interleaving of adds, timer ticks and returning upserts, and
  whatever the upserts' outcomes, after the final \<open>flushAll\<close> the batches passed to
  \<open>saveWhiskyDataBatch\<close> hold exactly the added records, each once. When no upsert
  fails, the same holds of the chunks issued to the store.
\<close>

theorem every_record_handed_over_once:
  "mset (concat (saveCalls (flushAll ok (run ok es (startAutoFlush (new_buffer n))))))
     = mset (added es)
   \<and> ((\<forall>k. ok k) \<longrightarrow>
        mset (concat (upserts (flushAll ok (run ok es (startAutoFlush (new_buffer n))))))
          = mset (added es))"
proof -
  define fin where "fin = flushAll ok (run ok es (startAutoFlush (new_buffer n)))"
  have "concat (saveCalls fin) = handed_over (run ok es (startAutoFlush (new_buffer n)))"
    using flushAll_props [of ok "run ok es (startAutoFlush (new_buffer n))"]
    by (simp add: handed_over_def fin_def)
  also have "\<dots> = added es"
    by (simp add: run_handed) (simp add: handed_over_def startAutoFlush_def new_buffer_def)
  finally have a: "concat (saveCalls fin) = added es" .
  have "concat (upserts fin) = added es" if "\<forall>k. ok k"
  proof -
    have "upserts fin = concat (map save_chunks (saveCalls fin))"
      unfolding fin_def using run_chunks [OF fresh_chunks that] that by (rule flushAll_chunks)
    then show ?thesis by (simp add: concat_concat_save_chunks a)
  qed
  with a show ?thesis by (simp add: fin_def)
qed


theorem every_record_handed_over_once_witness:
  "(\<forall>k. always_ok k)
   \<and> mset (concat (saveCalls (flushAll always_ok
        (run always_ok [Add (1::nat), Add 2, Add 3, Tick, Done, Add 4, Tick, Add 5]
           (startAutoFlush (new_buffer 2))))))
       = mset [1, 2, 3, 4, 5]
   \<and> mset (concat (upserts (flushAll always_ok
        (run always_ok [Add (1::nat), Add 2, Add 3, Tick, Done, Add 4, Tick, Add 5]
           (startAutoFlush (new_buffer 2))))))
       = mset [1, 2, 3, 4, 5]"
  using every_record_handed_over_once
    [of always_ok "[Add (1::nat), Add 2, Add 3, Tick, Done, Add 4, Tick, Add 5]" 2]
  by (simp add: always_ok_def)

lemma ceil_div: "0 < (B::nat) \<Longrightarrow> (K + B - 1) div B = K div B + (if K mod B = 0 then 0 else 1)"
proof -
  assume pos: "0 < B"
  define q m where "q = K div B" and "m = K mod B"
  have K: "K = q * B + m" and mB: "m < B" using pos by (simp_all add: q_def m_def)
  show ?thesis
  proof (cases "m = 0")
    case True
    define r where "r = B - 1"
    have "r < B" using pos by (simp add: r_def)
    then have "(q * B + r) div B = q" by simp
    moreover have "K + B - 1 = q * B + r" using K True pos by (simp add: r_def)
    ultimately show ?thesis using True by (simp add: q_def m_def)
  next
    case False
    define r where "r = m - 1"
    have "r < B" using mB by (simp add: r_def)
    then have "(Suc q * B + r) div B = Suc q" by (simp only: div_mult_self3 div_less)
    moreover have "K + B - 1 = Suc q * B + r" using K False pos by (simp add: r_def)
    ultimately show ?thesis using False by (simp add: q_def m_def)
  qed
qed

lemma chunk_loop_bound: "c \<in> set (chunk_loop batch i) \<Longrightarrow> length c \<le> CHUNK_SIZE"
proof (induction batch i rule: chunk_loop.induct)
  case (1 batch i)
  show ?case
  proof (cases "i < length batch")
    case True
    then have "chunk_loop batch i
                 = take CHUNK_SIZE (drop i batch) # chunk_loop batch (i + CHUNK_SIZE)"
      by (subst chunk_loop.simps) simp
    with "1.prems" "1.IH" [OF True] show ?thesis by auto
  next
    case False
    then have "chunk_loop batch i = []" by (subst chunk_loop.simps) simp
    with "1.prems" show ?thesis by simp
  qed
qed

lemma save_chunks_bound: "c \<in> set (save_chunks batch) \<Longrightarrow> length c \<le> CHUNK_SIZE"
  by (auto simp: save_chunks_def chunk_loop_bound split: if_splits)

lemma sync_feed_chunks:
  "chunks_inv s \<Longrightarrow> \<forall>k. ok k \<Longrightarrow> chunks_inv (sync_feed ok rs s)"
proof (induction rs arbitrary: s)
  case Nil
  then show ?case by simp
next
  case (Cons r rs)
  have "chunks_inv (add r s)"
    using step_chunks [OF Cons.prems, of "Add r"] by simp
  then have "chunks_inv (fst (settle ok (add r s)))"
    using Cons.prems(2) by (rule settle_chunks)
  from Cons.IH [OF this Cons.prems(2)] show ?case by simp
qed

lemma new_buffer_chunks: "chunks_inv (new_buffer n)"
  by (simp add: chunks_inv_def unsent_def new_buffer_def)

text \<open>
  C6 (as amended). With \<open>batchSize = B > 0\<close>, \<open>K\<close> records added one by one, each
  flush completing before the next add, and then \<open>flushAll\<close>: exactly
  \<open>ceil(K / B)\<close> batches are passed to \<open>saveWhiskyDataBatch\<close>, of sizes \<open>B, ..., B\<close>
  and, when \<open>B\<close> does not divide \<open>K\<close>, a last one of \<open>K mod B\<close>. For \<open>B = 2\<close> and five
  records the sizes are 2, 2, 1. When no upsert fails, the chunks issued to the store
  are those batches cut by \<open>saveWhiskyDataBatch\<close>, each of at most \<open>CHUNK_SIZE\<close>
  records.
\<close>

theorem batches_when_flushes_complete:
  assumes "0 < B"
  shows "map length (saveCalls (flushAll ok (sync_feed ok rs (new_buffer B))))
           = replicate (length rs div B) B @ (if length rs mod B = 0 then [] else [length rs mod B])
         \<and> length (saveCalls (flushAll ok (sync_feed ok rs (new_buffer B))))
           = (length rs + B - 1) div B
         \<and> ((\<forall>k. ok k) \<longrightarrow>
               upserts (flushAll ok (sync_feed ok rs (new_buffer B)))
                 = concat (map save_chunks (saveCalls (flushAll ok (sync_feed ok rs (new_buffer B)))))
               \<and> (\<forall>c\<in>set (upserts (flushAll ok (sync_feed ok rs (new_buffer B)))).
                    length c \<le> CHUNK_SIZE))"
proof -
  define s where "s = sync_feed ok rs (new_buffer B :: 'a batch_buffer)"
  have "flushPromise (new_buffer B :: 'a batch_buffer) = None"
    "\<not> flushing (new_buffer B :: 'a batch_buffer)"
    "length (buffer (new_buffer B :: 'a batch_buffer)) < batchSize (new_buffer B :: 'a batch_buffer)"
    using assms by (simp_all add: new_buffer_def)
  from sync_feed_sizes [OF this, of ok rs]
  have f: "map length (saveCalls s) = replicate (length rs div B) B"
    "length (buffer s) = length rs mod B"
    by (simp_all add: s_def new_buffer_def)
  have "saveCalls (flushAll ok s) = saveCalls s @ (if buffer s = [] then [] else [buffer s])"
    using flushAll_props [of ok s] by simp
  moreover have "(buffer s = []) = (length rs mod B = 0)"
    using f(2) by (metis length_0_conv)
  ultimately have m: "map length (saveCalls (flushAll ok s))
          = replicate (length rs div B) B @ (if length rs mod B = 0 then [] else [length rs mod B])"
    using f by simp
  have "length (saveCalls (flushAll ok s)) = length (map length (saveCalls (flushAll ok s)))"
    by simp
  also have "\<dots> = length rs div B + (if length rs mod B = 0 then 0 else 1)"
    unfolding m by simp
  finally have n: "length (saveCalls (flushAll ok s)) = (length rs + B - 1) div B"
    using ceil_div [OF assms, of "length rs"] by simp
  have u: "upserts (flushAll ok s) = concat (map save_chunks (saveCalls (flushAll ok s)))
           \<and> (\<forall>c\<in>set (upserts (flushAll ok s)). length c \<le> CHUNK_SIZE)"
    if "\<forall>k. ok k"
  proof -
    have "chunks_inv s" unfolding s_def using new_buffer_chunks that by (rule sync_feed_chunks)
    then have e: "upserts (flushAll ok s) = concat (map save_chunks (saveCalls (flushAll ok s)))"
      using that by (rule flushAll_chunks)
    have "\<forall>c\<in>set (concat (map save_chunks (saveCalls (flushAll ok s)))). length c \<le> CHUNK_SIZE"
      by (auto simp: save_chunks_bound)
    with e show ?thesis by simp
  qed
  from m n u show ?thesis unfolding s_def by blast
qed

theorem batches_when_flushes_complete_witness:
  "(0::nat) < 2 \<and> (\<forall>k. always_ok k)
   \<and> map length (saveCalls (flushAll always_ok (sync_feed always_ok [1::nat, 2, 3, 4, 5] (new_buffer 2))))
       = [2, 2, 1]
   \<and> length (saveCalls (flushAll always_ok (sync_feed always_ok [1::nat, 2, 3, 4, 5] (new_buffer 2)))) = 3
   \<and> upserts (flushAll always_ok (sync_feed always_ok [1::nat, 2, 3, 4, 5] (new_buffer 2)))
       = [[1, 2], [3, 4], [5]]"
proof -
  have e: "length [1::nat, 2, 3, 4, 5] div 2 = 2" "length [1::nat, 2, 3, 4, 5] mod 2 = 1"
    "(length [1::nat, 2, 3, 4, 5] + 2 - 1) div 2 = 3"
    by simp_all
  have r: "replicate 2 (2::nat) = [2, 2]" by (simp add: numeral_2_eq_2)
  have u: "upserts (flushAll always_ok (sync_feed always_ok [1::nat, 2, 3, 4, 5] (new_buffer 2)))
             = [[1, 2], [3, 4], [5]]"
    by code_simp
  show ?thesis
    using batches_when_flushes_complete [of 2 always_ok "[1::nat, 2, 3, 4, 5]"] u
    unfolding e by (simp add: r always_ok_def)
qed

text \<open>
  C6 as stated fails: five adds in a row, with no turn in between in which the first
  flush could complete, then \<open>flushAll\<close>: two batches, of sizes 2 and 3.
\<close>

theorem back_to_back_adds_merge_batches:
  "map length (saveCalls (flushAll always_ok
      (run always_ok [Add (1::nat), Add 2, Add 3, Add 4, Add 5] (new_buffer 2)))) = [2, 3]"
  by code_simp

text \<open>
  C9. \<open>flushAll\<close> returns for every state and every outcome of the upserts (it is a
  total function: \<open>settle\<close> and \<open>drain\<close> terminate), with the timer stopped, no
  flush in flight and the buffer empty, having passed at most one more batch to
  \<open>saveWhiskyDataBatch\<close>: a failed save is not retried.
\<close>

theorem flushAll_drains:
  "buffer (flushAll ok s) = [] \<and> flushPromise (flushAll ok s) = None
   \<and> \<not> flushInterval (flushAll ok s)
   \<and> saveCalls (flushAll ok s) = saveCalls s @ (if buffer s = [] then [] else [buffer s])"
  using flushAll_props [of ok s] by simp

theorem flushAll_drains_witness:
  "buffer (flushAll never_ok (add (3::nat) (add 2 (add 1 (startAutoFlush (new_buffer 2)))))) = []
   \<and> flushPromise (flushAll never_ok (add (3::nat) (add 2 (add 1 (startAutoFlush (new_buffer 2)))))) = None
   \<and> \<not> flushInterval (flushAll never_ok (add (3::nat) (add 2 (add 1 (startAutoFlush (new_buffer 2))))))
   \<and> saveCalls (flushAll never_ok (add (3::nat) (add 2 (add 1 (startAutoFlush (new_buffer 2))))))
       = [[1, 2], [3]]"
proof -
  have "saveCalls (add (3::nat) (add 2 (add 1 (startAutoFlush (new_buffer 2))))) = [[1, 2]]"
    "buffer (add (3::nat) (add 2 (add 1 (startAutoFlush (new_buffer 2))))) = [3]"
    by code_simp+
  with flushAll_drains [of never_ok "add (3::nat) (add 2 (add 1 (startAutoFlush (new_buffer 2))))"]
  show ?thesis by simp
qed

section \<open>findMaxWhiskyId (scrape.ts)\<close>

text \<open>
  \<open>scraper.fetchWhiskyPage(id)\<close> returns the page, throws \<open>NOT_FOUND\<close>, or throws
  another error. The source being probed is a function from IDs to these outcomes.

  Phase 1 is a \<open>while (true)\<close> loop and need not end (a source that always fails with
  another error is probed at ever higher IDs), so it is a partial function: \<open>None\<close>
  stands for a loop that never leaves. The result is the value of \<open>upperBound\<close> at the
  \<open>break\<close>. \<open>Math.floor((upperBound + lastValidId) / 2)\<close> is \<open>div\<close> on integers. The
  source tests \<open>consecutive404s >= minConsecutive404s / 2\<close> after a 404 that does not
  meet the criteria, but both branches of that test are the same statements.
\<close>

datatype probe = Found | NotFound | Failed

partial_function (option) phase1 ::
  "criteria \<Rightarrow> (int \<Rightarrow> probe) \<Rightarrow> int \<Rightarrow> int \<Rightarrow> tracker \<Rightarrow> int option" where
  "phase1 cr src upperBound lastValidId t =
     (case src upperBound of
        Found \<Rightarrow>
          if 10000000 < upperBound * 2 then Some upperBound
          else phase1 cr src (upperBound * 2) upperBound (record_outcome cr t False)
      | NotFound \<Rightarrow>
          if criteria_met cr (record_outcome cr t True) then Some lastValidId
          else phase1 cr src
                 (if (upperBound + lastValidId) div 2 \<le> lastValidId then lastValidId + 1
                  else (upperBound + lastValidId) div 2)
                 lastValidId (record_outcome cr t True)
      | Failed \<Rightarrow> phase1 cr src (upperBound + 1) lastValidId (record_outcome cr t False))"

declare phase1.simps [code]

text \<open>
  Phase 2 is the binary search between \<open>startId\<close> and the bound of phase 1, with a
  counter and a window of its own; it returns \<open>maxValidId\<close>.
\<close>

function phase2 ::
  "criteria \<Rightarrow> (int \<Rightarrow> probe) \<Rightarrow> int \<Rightarrow> int \<Rightarrow> int \<Rightarrow> tracker \<Rightarrow> int" where
  "phase2 cr src left right maxValidId t =
     (if left \<le> right
      then (case src ((left + right) div 2) of
              Found \<Rightarrow>
                phase2 cr src ((left + right) div 2 + 1) right ((left + right) div 2)
                  (record_outcome cr t False)
            | NotFound \<Rightarrow>
                if criteria_met cr (record_outcome cr t True) then maxValidId
                else phase2 cr src left ((left + right) div 2 - 1) maxValidId
                       (record_outcome cr t True)
            | Failed \<Rightarrow>
                phase2 cr src ((left + right) div 2 + 1) right maxValidId
                  (record_outcome cr t False))
      else maxValidId)"
  by pat_completeness auto
termination
  by (relation "measure (\<lambda>(cr, src, left, right, maxValidId, t). nat (right + 1 - left))") auto

declare phase2.simps [simp del]

definition findMaxWhiskyId :: "criteria \<Rightarrow> (int \<Rightarrow> probe) \<Rightarrow> int \<Rightarrow> int option" where
  "findMaxWhiskyId cr src startId =
     (case phase1 cr src startId startId tracker0 of
        None \<Rightarrow> None
      | Some upperBound \<Rightarrow> Some (phase2 cr src startId upperBound startId tracker0))"

text \<open>
  The synthetic source in which exactly the IDs \<open>1..M\<close> exist, and a source in which
  exactly the powers of two from 4 to \<open>2^23\<close> exist.
\<close>

definition synthetic :: "int \<Rightarrow> int \<Rightarrow> probe" where
  "synthetic M i = (if 1 \<le> i \<and> i \<le> M then Found else NotFound)"

definition sparse :: "int \<Rightarrow> probe" where
  "sparse i = (if i \<in> set (map (\<lambda>k. 2 ^ k) [2..<24]) then Found else NotFound)"


subsection \<open>Convergence on the synthetic source\<close>

text \<open>
  \<open>tracker_inv\<close>: the window holds at most \<open>W\<close> entries, at least as many as the
  current run of 404s (up to \<open>W\<close>), and its last entries, as many as that run, are
  404s. \<open>gap_ok\<close>: after \<open>c\<close> consecutive 404s above the last valid ID \<open>l\<close>, the
  candidate is \<open>l + 1\<close> or within \<open>l / 2^c\<close> of \<open>l\<close>.
\<close>

definition tracker_inv :: "nat \<Rightarrow> tracker \<Rightarrow> bool" where
  "tracker_inv W t =
     (length (recentResults t) \<le> W
      \<and> min (consecutive404s t) W \<le> length (recentResults t)
      \<and> list_all id (drop (length (recentResults t) - consecutive404s t) (recentResults t)))"

definition gap_ok :: "int \<Rightarrow> int \<Rightarrow> nat \<Rightarrow> bool" where
  "gap_ok u l c = (l < u \<and> (u = l + 1 \<or> (u - l) * 2 ^ c \<le> l))"

lemma tracker_inv0: "tracker_inv W tracker0"
  by (simp add: tracker_inv_def tracker0_def)

lemma record_404_count [simp]:
  "consecutive404s (record_outcome cr t True) = consecutive404s t + 1"
  "consecutive404s (record_outcome cr t False) = 0"
  by (simp_all add: record_outcome_def)

lemma record_window [simp]:
  "recentResults (record_outcome cr t b) = push_window (windowSize cr) b (recentResults t)"
  by (simp add: record_outcome_def)

lemma tracker_inv_found:
  "tracker_inv (windowSize cr) t \<Longrightarrow> tracker_inv (windowSize cr) (record_outcome cr t False)"
  by (simp add: tracker_inv_def push_window_length)

lemma tracker_inv_404:
  assumes "tracker_inv (windowSize cr) t"
  shows "tracker_inv (windowSize cr) (record_outcome cr t True)"
proof -
  define W w c where "W = windowSize cr" and "w = recentResults t" and "c = consecutive404s t"
  define w' where "w' = push_window W True w"
  from assms have len: "length w \<le> W" and mn: "min c W \<le> length w"
    and tr: "list_all id (drop (length w - c) w)"
    by (simp_all add: tracker_inv_def W_def w_def c_def)
  have goal: "length w' \<le> W \<and> min (c + 1) W \<le> length w'
              \<and> list_all id (drop (length w' - (c + 1)) w')"
  proof (cases "W < length w + 1")
    case False
    then have w': "w' = w @ [True]"
      by (simp add: w'_def push_window_def)
    have "drop (length w + 1 - (c + 1)) (w @ [True]) = drop (length w - c) w @ [True]"
      by simp
    with tr have "list_all id (drop (length w' - (c + 1)) w')"
      by (simp add: w')
    moreover have "length w' \<le> W" using False by (simp add: w')
    moreover have "min (c + 1) W \<le> length w'" using mn by (simp add: w' min_def split: if_splits)
    ultimately show ?thesis by simp
  next
    case True
    with len have lw: "length w = W" by simp
    from True have w': "w' = tl (w @ [True])"
      by (simp add: w'_def push_window_def)
    have lw': "length w' = W" using lw by (simp add: w')
    have all: "list_all id (drop (W - (c + 1)) (tl (w @ [True])))"
    proof (cases "c + 1 \<le> W")
      case True
      then have "Suc (W - (c + 1)) = W - c" by simp
      then have "drop (W - (c + 1)) (tl (w @ [True])) = drop (W - c) (w @ [True])"
        by (simp only: drop_Suc [symmetric])
      also have "\<dots> = drop (W - c) w @ [True]" using lw by simp
      finally show ?thesis using tr lw by simp
    next
      case False
      then have z: "W - (c + 1) = 0" "W - c = 0" by simp_all
      with tr lw have "list_all id w" by simp
      then have "list_all id (tl (w @ [True]))"
        by (cases w) simp_all
      with z show ?thesis by simp
    qed
    show ?thesis using all lw' by (simp add: w')
  qed
  then show ?thesis
    by (simp add: tracker_inv_def W_def w_def c_def w'_def)
qed

lemma criteria_met_full:
  assumes "tracker_inv (windowSize cr) t" and "1 \<le> windowSize cr" and "min404Rate cr \<le> 1"
    and "windowSize cr \<le> consecutive404s t" and "minConsecutive404s cr \<le> consecutive404s t"
  shows "criteria_met cr t"
proof -
  from assms(1,4) have len: "length (recentResults t) = windowSize cr"
    by (simp add: tracker_inv_def)
  with assms(4) have "length (recentResults t) - consecutive404s t = 0" by simp
  with assms(1) have "list_all id (recentResults t)"
    by (simp add: tracker_inv_def)
  then have "filter id (recentResults t) = recentResults t"
    by (simp add: list_all_iff)
  with len assms(2,3,5) show ?thesis
    by (simp add: criteria_met_def rate_ge_def)
qed

lemma criteria_met_count: "criteria_met cr t \<Longrightarrow> minConsecutive404s cr \<le> consecutive404s t"
  by (simp add: criteria_met_def)

lemma synthetic_above [simp]: "M < u \<Longrightarrow> synthetic M u = NotFound"
  by (simp add: synthetic_def)

lemma synthetic_within [simp]: "1 \<le> u \<Longrightarrow> u \<le> M \<Longrightarrow> synthetic M u = Found"
  by (simp add: synthetic_def)

lemma phase1_at_boundary:
  assumes W: "1 \<le> windowSize cr" and R: "min404Rate cr \<le> 1"
  shows "tracker_inv (windowSize cr) t \<Longrightarrow> M < u \<Longrightarrow>
           phase1 cr (synthetic M) u M t = Some M"
proof (induction "max (minConsecutive404s cr) (windowSize cr) - consecutive404s t"
         arbitrary: u t rule: less_induct)
  case less
  define t' where "t' = record_outcome cr t True"
  have inv': "tracker_inv (windowSize cr) t'"
    unfolding t'_def using less.prems(1) by (rule tracker_inv_404)
  show ?case
  proof (cases "criteria_met cr t'")
    case True
    with less.prems(2) show ?thesis
      by (subst phase1.simps) (simp add: t'_def)
  next
    case False
    define u' where
      "u' = (if (u + M) div 2 \<le> M then M + 1 else (u + M) div 2)"
    have u': "M < u'" by (simp add: u'_def)
    have "\<not> (windowSize cr \<le> consecutive404s t' \<and> minConsecutive404s cr \<le> consecutive404s t')"
      using False criteria_met_full [OF inv' W R] by blast
    then have "max (minConsecutive404s cr) (windowSize cr) - consecutive404s t'
                 < max (minConsecutive404s cr) (windowSize cr) - consecutive404s t"
      by (auto simp: t'_def)
    from less.hyps [OF this inv' u']
    have "phase1 cr (synthetic M) u' M t' = Some M" .
    with False less.prems(2) show ?thesis
      by (subst phase1.simps) (simp add: t'_def u'_def)
  qed
qed


lemma gap_halved:
  assumes "(u - l) * 2 ^ c \<le> (l::int)" and "l < u"
  shows "((u + l) div 2 - l) * 2 ^ (c + 1) \<le> l"
proof -
  have e: "((u + l) div 2 - l) * 2 ^ (c + 1) = ((u - l) div 2) * 2 * 2 ^ c" by simp
  have "((u - l) div 2) * 2 \<le> u - l" by simp
  then have "((u - l) div 2) * 2 * 2 ^ c \<le> (u - l) * 2 ^ c"
    by (rule mult_right_mono) simp
  then have "((u - l) div 2) * 2 * 2 ^ c \<le> l" using assms(1) by (rule order_trans)
  then show ?thesis unfolding e .
qed

lemma phase1_converges:
  assumes W: "1 \<le> windowSize cr" and R: "min404Rate cr \<le> 1"
    and C: "M < 2 ^ minConsecutive404s cr" and L: "2 * M \<le> 10000000"
  shows "1 \<le> l \<Longrightarrow> l \<le> M \<Longrightarrow> gap_ok u l (consecutive404s t) \<Longrightarrow>
           tracker_inv (windowSize cr) t \<Longrightarrow> phase1 cr (synthetic M) u l t = Some M"
proof (induction "nat (M - l)" arbitrary: l u t rule: less_induct)
  case outer: less
  show ?case
  proof (cases "l = M")
    case True
    with outer.prems(3) have "M < u" by (simp add: gap_ok_def)
    from phase1_at_boundary [OF W R outer.prems(4) this] True show ?thesis by simp
  next
    case False
    with outer.prems(2) have lM: "l < M" by simp
    from outer.prems(1,2,3,4) show ?thesis
    proof (induction "nat (u - l)" arbitrary: u t rule: less_induct)
      case inner: less
      from inner.prems(3) have lu: "l < u" by (simp add: gap_ok_def)
      show ?case
      proof (cases "u \<le> M")
        case True
        define t0 where "t0 = record_outcome cr t False"
        have f: "synthetic M u = Found" using lu inner.prems(1) True by simp
        have nb: "\<not> 10000000 < u * 2" using True L by simp
        have "nat (M - u) < nat (M - l)" using lu True by simp
        moreover have "1 \<le> u" using lu inner.prems(1) by simp
        moreover have "gap_ok (u * 2) u (consecutive404s t0)"
          using \<open>1 \<le> u\<close> by (simp add: gap_ok_def t0_def)
        moreover have "tracker_inv (windowSize cr) t0"
          unfolding t0_def using inner.prems(4) by (rule tracker_inv_found)
        ultimately have "phase1 cr (synthetic M) (u * 2) u t0 = Some M"
          using True by (intro outer.hyps)
        with f nb show ?thesis
          by (subst phase1.simps) (simp add: t0_def)
      next
        case False
        then have Mu: "M < u" by simp
        define t' where "t' = record_outcome cr t True"
        have inv': "tracker_inv (windowSize cr) t'"
          unfolding t'_def using inner.prems(4) by (rule tracker_inv_404)
        have far: "u \<noteq> l + 1" using Mu lM by simp
        with inner.prems(3) have gap: "(u - l) * 2 ^ consecutive404s t \<le> l"
          by (simp add: gap_ok_def)
        have two: "2 \<le> u - l" using far lu by simp
        have nc: "\<not> criteria_met cr t'"
        proof
          assume "criteria_met cr t'"
          then have "minConsecutive404s cr \<le> consecutive404s t + 1"
            using criteria_met_count [of cr t'] by (simp add: t'_def)
          then have "(2::int) ^ minConsecutive404s cr \<le> 2 ^ (consecutive404s t + 1)"
            by (rule power_increasing) simp
          moreover have "(2::int) ^ (consecutive404s t + 1) \<le> (u - l) * 2 ^ consecutive404s t"
            using two by (simp add: mult_right_mono)
          ultimately have "(2::int) ^ minConsecutive404s cr \<le> (u - l) * 2 ^ consecutive404s t"
            by (rule order_trans)
          then have "(2::int) ^ minConsecutive404s cr \<le> l" using gap by (rule order_trans)
          then show False using inner.prems(2) C by simp
        qed
        define u' where "u' = (u + l) div 2"
        have u'1: "l < u'" using two by (simp add: u'_def)
        have u'2: "u' < u" using lu by (simp add: u'_def)
        have "gap_ok u' l (consecutive404s t')"
          using gap_halved [OF gap lu] u'1 by (simp add: gap_ok_def u'_def t'_def)
        moreover have "nat (u' - l) < nat (u - l)" using u'1 u'2 by simp
        ultimately have "phase1 cr (synthetic M) u' l t' = Some M"
          using inner.prems(1,2) inv' by (intro inner.hyps)
        with nc Mu u'1 show ?thesis
          by (subst phase1.simps) (simp add: t'_def u'_def)
      qed
    qed
  qed
qed

lemma phase2_result:
  "phase2 cr src left right maxValidId t = maxValidId
   \<or> src (phase2 cr src left right maxValidId t) = Found"
proof (induction cr src left right maxValidId t rule: phase2.induct)
  case (1 cr src left right maxValidId t)
  show ?case
  proof (cases "left \<le> right")
    case False
    then show ?thesis by (subst (1 2) phase2.simps) simp
  next
    case True
    show ?thesis
    proof (cases "src ((left + right) div 2)")
      case Found
      from "1.IH"(1) [OF True Found] True Found show ?thesis
        by (subst (1 2) phase2.simps) auto
    next
      case NotFound
      show ?thesis
      proof (cases "criteria_met cr (record_outcome cr t True)")
        case met: True
        with True NotFound show ?thesis by (subst (1 2) phase2.simps) simp
      next
        case unmet: False
        from "1.IH"(2) [OF True NotFound unmet] True NotFound unmet show ?thesis
          by (subst (1 2) phase2.simps) simp
      qed
    next
      case Failed
      from "1.IH"(3) [OF True Failed] True Failed show ?thesis
        by (subst (1 2) phase2.simps) simp
    qed
  qed
qed

lemma phase2_all_found:
  "(\<forall>i. left \<le> i \<and> i \<le> right \<longrightarrow> src i = Found) \<Longrightarrow>
     phase2 cr src left right maxValidId t = (if left \<le> right then right else maxValidId)"
proof (induction cr src left right maxValidId t rule: phase2.induct)
  case (1 cr src left right maxValidId t)
  show ?case
  proof (cases "left \<le> right")
    case False
    then show ?thesis by (subst phase2.simps) simp
  next
    case True
    define mid where "mid = (left + right) div 2"
    have m: "left \<le> mid" "mid \<le> right" using True by (simp_all add: mid_def)
    with "1.prems" have f: "src mid = Found" by simp
    have "\<forall>i. mid + 1 \<le> i \<and> i \<le> right \<longrightarrow> src i = Found"
      using "1.prems" m by simp
    from "1.IH"(1) [OF True f [unfolded mid_def] this [unfolded mid_def]]
    have "phase2 cr src (mid + 1) right mid (record_outcome cr t False)
            = (if mid + 1 \<le> right then right else mid)"
      by (simp add: mid_def)
    also have "\<dots> = right" using m by simp
    finally show ?thesis using True f
      by (subst phase2.simps) (simp add: mid_def)
  qed
qed


lemma findMax_synthetic:
  assumes "1 \<le> startId" and "startId \<le> M" and L: "2 * M \<le> 10000000"
    and C: "M < 2 ^ minConsecutive404s cr" and W: "1 \<le> windowSize cr" and R: "min404Rate cr \<le> 1"
  shows "findMaxWhiskyId cr (synthetic M) startId = Some M"
proof -
  define t0 where "t0 = record_outcome cr tracker0 False"
  have "gap_ok (startId * 2) startId (consecutive404s t0)"
    using assms(1) by (simp add: gap_ok_def t0_def)
  moreover have "tracker_inv (windowSize cr) t0"
    unfolding t0_def by (rule tracker_inv_found [OF tracker_inv0])
  ultimately have "phase1 cr (synthetic M) (startId * 2) startId t0 = Some M"
    using assms(1,2) by (intro phase1_converges [OF W R C L])
  moreover have "\<not> 10000000 < startId * 2" using assms(2) L by simp
  ultimately have p1: "phase1 cr (synthetic M) startId startId tracker0 = Some M"
    using assms(1,2) by (subst phase1.simps) (simp add: t0_def)
  have "\<forall>i. startId \<le> i \<and> i \<le> M \<longrightarrow> synthetic M i = Found"
    using assms(1) by simp
  then have "phase2 cr (synthetic M) startId M startId tracker0 = M"
    using assms(2) by (simp add: phase2_all_found)
  with p1 show ?thesis by (simp add: findMaxWhiskyId_def)
qed

text \<open>
  C3 (as amended). Whenever \<open>findMaxWhiskyId\<close> returns, the result is \<open>startId\<close> or an
  ID whose probe succeeded. On the synthetic source where exactly the IDs \<open>1..M\<close>
  succeed, with \<open>1 \<le> startId \<le> M\<close>, \<open>2 M\<close> at most the safety ceiling of 10,000,000,
  \<open>M < 2 ^ minConsecutive404s\<close>, a window of at least one entry and a rate threshold
  of at most 1, it returns exactly \<open>M\<close>.
\<close>

theorem findMax_result:
  "(findMaxWhiskyId cr src startId = Some r \<longrightarrow> r = startId \<or> src r = Found)
   \<and> (1 \<le> startId \<and> startId \<le> M \<and> 2 * M \<le> 10000000
        \<and> M < 2 ^ minConsecutive404s cr \<and> 1 \<le> windowSize cr \<and> min404Rate cr \<le> 1
      \<longrightarrow> findMaxWhiskyId cr (synthetic M) startId = Some M)"
proof -
  have "r = startId \<or> src r = Found" if "findMaxWhiskyId cr src startId = Some r"
  proof -
    from that obtain ub where "r = phase2 cr src startId ub startId tracker0"
      by (auto simp: findMaxWhiskyId_def split: option.splits)
    then show ?thesis using phase2_result [of cr src startId ub startId tracker0] by simp
  qed
  then show ?thesis using findMax_synthetic [of startId M cr] by blast
qed

theorem findMax_result_witness:
  "findMaxWhiskyId scrape_criteria (synthetic 4500) 1 = Some 4500
   \<and> synthetic 4500 4500 = Found
   \<and> (1::int) \<le> 1 \<and> (1::int) \<le> 4500 \<and> 2 * (4500::int) \<le> 10000000
   \<and> (4500::int) < 2 ^ minConsecutive404s scrape_criteria
   \<and> 1 \<le> windowSize scrape_criteria \<and> min404Rate scrape_criteria \<le> 1"
proof -
  have h: "(1::int) \<le> 1 \<and> (1::int) \<le> 4500 \<and> 2 * (4500::int) \<le> 10000000
        \<and> (4500::int) < 2 ^ minConsecutive404s scrape_criteria
        \<and> 1 \<le> windowSize scrape_criteria \<and> min404Rate scrape_criteria \<le> 1"
    by (simp add: scrape_criteria_def)
  with findMax_result [of scrape_criteria "synthetic 4500" 1 4500 4500]
  have "findMaxWhiskyId scrape_criteria (synthetic 4500) 1 = Some 4500" by blast
  with h show ?thesis by (simp add: synthetic_def)
qed

text \<open>
  C3 as stated fails. With the thresholds of the source (3000, 4500, 0.95) and the
  synthetic source of \<open>M = 9,000,000\<close>, phase 1 doubles from 1 up to \<open>8,388,608\<close>, whose
  double exceeds the ceiling of 10,000,000; the binary search below that bound then
  returns \<open>8,388,608\<close>, not \<open>M\<close>.
\<close>

theorem findMax_stops_at_ceiling:
  "minConsecutive404s scrape_criteria \<le> windowSize scrape_criteria
   \<and> int (windowSize scrape_criteria) \<le> 9000000
   \<and> (1::int) \<le> 9000000
   \<and> findMaxWhiskyId scrape_criteria (synthetic 9000000) 1 = Some 8388608"
  by code_simp

text \<open>
  With the thresholds of the source the result is exact for every \<open>M\<close> up to 5,000,000.
\<close>

lemma findMax_source_thresholds:
  "1 \<le> startId \<Longrightarrow> startId \<le> M \<Longrightarrow> M \<le> 5000000 \<Longrightarrow>
     findMaxWhiskyId scrape_criteria (synthetic M) startId = Some M"
proof (rule findMax_synthetic)
  assume "M \<le> 5000000"
  then show "2 * M \<le> 10000000" by simp
  have "(5000000::int) < 2 ^ 3000" by simp
  with \<open>M \<le> 5000000\<close> show "M < 2 ^ minConsecutive404s scrape_criteria"
    by (simp add: scrape_criteria_def)
qed (simp_all add: scrape_criteria_def)

text \<open>
  The result can be a \<open>startId\<close> whose own probe failed although other probes
  succeeded: when only the powers of two from 4 on exist, phase 1 started at 3 finds
  4, 8, ..., but every probe of the binary search misses. And with small thresholds
  the criteria can be met before the bisection of phase 1 has closed in on \<open>M\<close>.
\<close>

lemma findMax_returns_failed_start:
  "findMaxWhiskyId scrape_criteria sparse 3 = Some 3 \<and> sparse 3 = NotFound \<and> sparse 4 = Found"
  by code_simp

lemma findMax_stops_early_small_thresholds:
  "findMaxWhiskyId \<lparr>minConsecutive404s = 3, windowSize = 5, min404Rate = 6 / 10\<rparr>
     (synthetic 100) 1 = Some 96"
  by code_simp

section \<open>The worker pool of scrape (scrape.ts)\<close>

text \<open>
  \<open>scraper.scrapeWhisky(id)\<close> resolves with data, resolves with \<open>null\<close>, throws
  \<open>NOT_FOUND\<close> or throws another error. A worker is an async function; between two
  \<open>await\<close>s it runs alone. It is either not started, suspended in the \<open>await\<close> of
  the scrape of the ID it claimed, or returned.
\<close>

datatype 'r scraped = Data 'r | NoData | NotFound404 | OtherError

datatype worker = Idle | Fetching int | Exited

text \<open>
  The variables shared by the workers. \<open>claimed\<close> is not in the source: it logs the
  values taken by \<open>currentId = nextId++\<close>, in order, for stating properties. The
  progress bar is left out.
\<close>

record 'r pool =
  results :: "result list"
  shouldStop :: bool
  nextId :: int
  processedCount :: nat
  batchBuffer :: "'r batch_buffer"
  workers :: "worker list"
  claimed :: "int list"

record options =
  startId :: int
  maxId :: "int option"
  dryRun :: bool
  findMaxId :: bool
  concurrency :: nat

text \<open>
  \<open>maxId\<close> is \<open>number | undefined\<close>. In a condition, \<open>undefined\<close> and \<open>0\<close> are false.
  \<open>actualMaxId\<close> is \<open>maxId\<close>, or the result \<open>found\<close> of \<open>findMaxWhiskyId\<close> when
  \<open>findMaxId && !maxId\<close>.
\<close>

definition truthy :: "int option \<Rightarrow> bool" where
  "truthy v = (case v of None \<Rightarrow> False | Some n \<Rightarrow> n \<noteq> 0)"

definition actualMaxId :: "options \<Rightarrow> int \<Rightarrow> int option" where
  "actualMaxId opts found =
     (if findMaxId opts \<and> \<not> truthy (maxId opts) then Some found else maxId opts)"

text \<open>
  The head of the worker loop, up to the next \<open>await\<close>:
  \<open>while (!shouldStop) { if (actualMaxId && nextId > actualMaxId) break; currentId = nextId++; ...\<close>
\<close>

definition bound_reached :: "int option \<Rightarrow> int \<Rightarrow> bool" where
  "bound_reached mx n = (truthy mx \<and> (case mx of None \<Rightarrow> False | Some m \<Rightarrow> m < n))"

definition claim_next :: "int option \<Rightarrow> 'r pool \<Rightarrow> nat \<Rightarrow> 'r pool" where
  "claim_next mx s i =
     (if shouldStop s then s\<lparr>workers := (workers s)[i := Exited]\<rparr>
      else if bound_reached mx (nextId s) then s\<lparr>workers := (workers s)[i := Exited]\<rparr>
      else s\<lparr>workers := (workers s)[i := Fetching (nextId s)],
             claimed := claimed s @ [nextId s],
             nextId := nextId s + 1\<rparr>)"

text \<open>
  The turn of worker \<open>i\<close> when its scrape settles: record the outcome (\<open>null\<close> data
  then \<open>continue\<close>s, skipping the stopping check; data is added to the buffer unless
  \<open>dryRun\<close>; an error other than \<open>NOT_FOUND\<close> is logged and recorded as not a 404),
  run the stopping check, and go to the head of the loop.
\<close>

definition record_result :: "'r pool \<Rightarrow> int \<Rightarrow> bool \<Rightarrow> 'r pool" where
  "record_result s currentId is404 =
     s\<lparr>results := results s @ [(currentId, is404)], processedCount := processedCount s + 1\<rparr>"

definition stop_check :: "criteria \<Rightarrow> int option \<Rightarrow> 'r pool \<Rightarrow> nat \<Rightarrow> 'r pool" where
  "stop_check cr mx s i =
     (if check_stop cr (results s)
      then s\<lparr>shouldStop := True, workers := (workers s)[i := Exited]\<rparr>
      else claim_next mx s i)"

definition resume :: "criteria \<Rightarrow> int option \<Rightarrow> bool \<Rightarrow> 'r pool \<Rightarrow> nat \<Rightarrow> 'r scraped \<Rightarrow> 'r pool" where
  "resume cr mx dry s i outcome =
     (if i < length (workers s)
      then (case workers s ! i of
              Fetching currentId \<Rightarrow>
                (case outcome of
                   NoData \<Rightarrow> claim_next mx (record_result s currentId False) i
                 | Data d \<Rightarrow>
                     stop_check cr mx
                       (record_result
                          (if dry then s else s\<lparr>batchBuffer := add d (batchBuffer s)\<rparr>)
                          currentId False) i
                 | NotFound404 \<Rightarrow> stop_check cr mx (record_result s currentId True) i
                 | OtherError \<Rightarrow> stop_check cr mx (record_result s currentId False) i)
            | Idle \<Rightarrow> s
            | Exited \<Rightarrow> s)
      else s)"

text \<open>
  The turns of a run: a worker's scrape settles, the buffer's awaited upsert returns,
  the buffer's timer fires. \<open>start_pool\<close> is \<open>Array.from({length: concurrency}, (_, i) => worker(i))\<close>:
  each worker runs to its first \<open>await\<close>.
\<close>

datatype 'r pool_event = Settled nat "'r scraped" | Upserted | Timer

fun pool_step ::
  "criteria \<Rightarrow> int option \<Rightarrow> bool \<Rightarrow> (nat \<Rightarrow> bool) \<Rightarrow> 'r pool \<Rightarrow> 'r pool_event \<Rightarrow> 'r pool" where
  "pool_step cr mx dry ok s (Settled i outcome) = resume cr mx dry s i outcome"
| "pool_step cr mx dry ok s Upserted = s\<lparr>batchBuffer := chunk_done ok (batchBuffer s)\<rparr>"
| "pool_step cr mx dry ok s Timer = s\<lparr>batchBuffer := timer_tick (batchBuffer s)\<rparr>"

definition pool_run ::
  "criteria \<Rightarrow> int option \<Rightarrow> bool \<Rightarrow> (nat \<Rightarrow> bool) \<Rightarrow> 'r pool_event list \<Rightarrow> 'r pool \<Rightarrow> 'r pool" where
  "pool_run cr mx dry ok es s = foldl (pool_step cr mx dry ok) s es"

definition start_pool :: "options \<Rightarrow> int option \<Rightarrow> 'r pool" where
  "start_pool opts mx =
     foldl (claim_next mx)
       \<lparr>results = [], shouldStop = False, nextId = startId opts, processedCount = 0,
        batchBuffer = (if dryRun opts then new_buffer 50 else startAutoFlush (new_buffer 50)),
        workers = replicate (concurrency opts) Idle, claimed = []\<rparr>
       [0..<concurrency opts]"

text \<open>
  After \<open>await Promise.all(workers)\<close>: \<open>finish\<close> is the rest of the \<open>try\<close> block, together
  with the \<open>catch\<close> block it falls into when it throws; \<open>fatal\<close> is the \<open>catch\<close> block,
  entered with the message of the error caught. The second component is the progress row
  handed to \<open>updateProgress\<close>, if any (\<open>updateProgress\<close> catches its own errors). No
  turn of a worker raises: every exception of the scrape is caught in the loop.

  \<open>Math.max(...ids)\<close> passes every element of the array as an argument of one call. An
  engine accepts a bounded number of arguments in a call, \<open>argLimit\<close>, and raises
  \<open>RangeError\<close> beyond it; the two calls of \<open>scrape\<close> are made from the same frame. Both
  are guarded by a test that the array is not empty. In the \<open>try\<close> block the call is made
  in dry-run mode too; in the \<open>catch\<close> block it comes after \<open>flushAll\<close> and before
  \<open>updateProgress\<close>, so that no row is written when it throws.
\<close>

record progress =
  lastProcessedId :: int
  status :: string
  errorMessage :: "string option"

definition all_exited :: "'r pool \<Rightarrow> bool" where
  "all_exited s = list_all (\<lambda>w. w = Exited) (workers s)"

definition math_max :: "nat \<Rightarrow> int list \<Rightarrow> string + int" where
  "math_max argLimit ids =
     (if argLimit < length ids then Inl ''Maximum call stack size exceeded''
      else Inr (Max (set ids)))"

definition fatal :: "nat \<Rightarrow> options \<Rightarrow> (nat \<Rightarrow> bool) \<Rightarrow> string \<Rightarrow> 'r pool \<Rightarrow> 'r pool \<times> progress option" where
  "fatal argLimit opts ok message s =
     (let s1 = s\<lparr>shouldStop := True\<rparr>
      in if dryRun opts then (s1, None)
         else (let s2 = s1\<lparr>batchBuffer := flushAll ok (batchBuffer s1)\<rparr>
               in case (if results s2 \<noteq> [] then math_max argLimit (map fst (results s2))
                        else Inr (startId opts - 1)) of
                    Inl e \<Rightarrow> (s2, None)
                  | Inr maxProcessedId \<Rightarrow>
                      (s2, Some \<lparr>lastProcessedId = maxProcessedId, status = ''error'',
                                errorMessage = Some message\<rparr>)))"

definition finish :: "nat \<Rightarrow> options \<Rightarrow> (nat \<Rightarrow> bool) \<Rightarrow> 'r pool \<Rightarrow> 'r pool \<times> progress option" where
  "finish argLimit opts ok s =
     (let successfulIds = map fst (filter (\<lambda>r. \<not> snd r) (results s))
      in case (if successfulIds \<noteq> [] then math_max argLimit successfulIds
               else Inr (startId opts - 1)) of
           Inl e \<Rightarrow> fatal argLimit opts ok e s
         | Inr maxProcessedId \<Rightarrow>
             if dryRun opts then (s, None)
             else (s\<lparr>batchBuffer := flushAll ok (batchBuffer s)\<rparr>,
                   Some \<lparr>lastProcessedId = maxProcessedId, status = ''completed'',
                         errorMessage = None\<rparr>))"

text \<open>Runs used as examples.\<close>

definition errors_only :: "nat \<Rightarrow> nat pool_event list" where
  "errors_only n = replicate n (Settled 0 OtherError)"


subsection \<open>Claiming IDs\<close>

definition claim_inv :: "int option \<Rightarrow> 'r pool \<Rightarrow> bool" where
  "claim_inv mx s =
     (distinct (claimed s) \<and> list_all (\<lambda>c. c < nextId s) (claimed s)
      \<and> (truthy mx \<longrightarrow> list_all (\<lambda>c. case mx of None \<Rightarrow> True | Some m \<Rightarrow> c \<le> m) (claimed s)))"

lemma claim_next_inv: "claim_inv mx s \<Longrightarrow> claim_inv mx (claim_next mx s i)"
  by (cases mx) (auto simp: claim_inv_def claim_next_def bound_reached_def list_all_iff truthy_def)

lemma record_result_inv [simp]: "claim_inv mx (record_result s c b) = claim_inv mx s"
  by (simp add: claim_inv_def record_result_def)

lemma batchBuffer_update_inv [simp]: "claim_inv mx (s\<lparr>batchBuffer := b\<rparr>) = claim_inv mx s"
  by (simp add: claim_inv_def)

lemma stop_check_inv: "claim_inv mx s \<Longrightarrow> claim_inv mx (stop_check cr mx s i)"
  by (simp add: stop_check_def claim_next_inv) (simp add: claim_inv_def)

lemma resume_inv: "claim_inv mx s \<Longrightarrow> claim_inv mx (resume cr mx dry s i outcome)"
  by (simp add: resume_def stop_check_inv claim_next_inv split: worker.splits scraped.splits)

lemma pool_step_inv: "claim_inv mx s \<Longrightarrow> claim_inv mx (pool_step cr mx dry ok s e)"
  by (cases e) (simp_all add: resume_inv)

lemma pool_run_inv: "claim_inv mx s \<Longrightarrow> claim_inv mx (pool_run cr mx dry ok es s)"
  unfolding pool_run_def by (induction es arbitrary: s) (simp_all add: pool_step_inv)

lemma foldl_claim_inv: "claim_inv mx s \<Longrightarrow> claim_inv mx (foldl (claim_next mx) s is)"
  by (induction "is" arbitrary: s) (simp_all add: claim_next_inv)

lemma start_pool_inv: "claim_inv mx (start_pool opts mx)"
  unfolding start_pool_def by (rule foldl_claim_inv) (simp add: claim_inv_def)

lemma reachable_inv: "claim_inv mx (pool_run cr mx dry ok es (start_pool opts mx))"
  by (rule pool_run_inv [OF start_pool_inv])

lemma claim_next_exit:
  "i < length (workers s) \<Longrightarrow>
     (workers (claim_next mx s i) ! i = Exited)
       = (shouldStop s \<or> (\<exists>m. mx = Some m \<and> m \<noteq> 0 \<and> m < nextId s))"
  by (cases mx) (auto simp: claim_next_def bound_reached_def truthy_def)

lemma claim_next_flag [simp]: "shouldStop (claim_next mx s i) = shouldStop s"
  by (simp add: claim_next_def)

lemma resume_exit:
  assumes "i < length (workers s)" and "workers s ! i = Fetching c"
  shows "(workers (resume cr mx dry s i outcome) ! i = Exited)
           = (shouldStop (resume cr mx dry s i outcome)
              \<or> (\<exists>m. mx = Some m \<and> m \<noteq> 0 \<and> m < nextId s))"
proof -
  have a: "(workers (claim_next mx t i) ! i = Exited)
               = (shouldStop (claim_next mx t i) \<or> (\<exists>m. mx = Some m \<and> m \<noteq> 0 \<and> m < nextId s))"
    if "workers t = workers s" and "nextId t = nextId s" for t :: "'a pool"
  proof -
    from that assms(1) have "i < length (workers t)" by simp
    from claim_next_exit [OF this, of mx] that(2) show ?thesis by simp
  qed
  have b: "(workers (stop_check cr mx t i) ! i = Exited)
               = (shouldStop (stop_check cr mx t i) \<or> (\<exists>m. mx = Some m \<and> m \<noteq> 0 \<and> m < nextId s))"
    if "workers t = workers s" and "nextId t = nextId s" for t :: "'a pool"
    using assms(1) a [OF that] that by (simp add: stop_check_def)
  show ?thesis
    using assms by (cases outcome) (simp_all add: resume_def a b record_result_def)
qed


definition two_workers :: options where
  "two_workers = \<lparr>startId = 1, maxId = Some 5, dryRun = False, findMaxId = False, concurrency = 2\<rparr>"

definition one_worker :: "int option \<Rightarrow> options" where
  "one_worker mx = \<lparr>startId = 1, maxId = mx, dryRun = False, findMaxId = False, concurrency = 1\<rparr>"

definition find_from_zero :: options where
  "find_from_zero = \<lparr>startId = 1, maxId = Some 0, dryRun = False, findMaxId = True, concurrency = 1\<rparr>"

definition twelve_errors :: "nat pool" where
  "twelve_errors =
     pool_run scrape_criteria (Some 12) False always_ok (errors_only 12)
       (start_pool (one_worker (Some 12)) (Some 12))"

text \<open>
  C7. In every run of the pool the claimed IDs are pairwise distinct. A worker at the
  head of its loop returns exactly when the stop flag is set or \<open>actualMaxId\<close> is known
  (present and not zero, the test the loop makes) and \<open>nextId\<close> exceeds it; a worker
  whose scrape settles returns in that turn exactly when the stop flag is set at the
  end of the turn (by an earlier turn or by its own stopping check) or the bound is
  exceeded.
\<close>

theorem claims_distinct_exit_condition:
  "distinct (claimed (pool_run cr mx dry ok es (start_pool opts mx)))
   \<and> (i < length (workers s) \<longrightarrow>
        (workers (claim_next mx s i) ! i = Exited)
          = (shouldStop s \<or> (\<exists>m. mx = Some m \<and> m \<noteq> 0 \<and> m < nextId s)))
   \<and> (i < length (workers s) \<and> workers s ! i = Fetching c \<longrightarrow>
        (workers (resume cr mx dry s i outcome) ! i = Exited)
          = (shouldStop (resume cr mx dry s i outcome)
             \<or> (\<exists>m. mx = Some m \<and> m \<noteq> 0 \<and> m < nextId s)))"
  using reachable_inv [of mx cr dry ok es opts] claim_next_exit [of i s mx]
    resume_exit [of i s c cr mx dry outcome]
  by (simp add: claim_inv_def)

theorem claims_distinct_exit_condition_witness:
  "claimed (pool_run scrape_criteria (Some 5) False always_ok
              [Settled 1 NotFound404, Settled 0 (Data (7::nat)), Settled 0 NoData, Settled 1 OtherError,
               Settled 0 NoData, Settled 1 NoData]
              (start_pool two_workers (Some 5))) = [1, 2, 3, 4, 5]
   \<and> distinct (claimed (pool_run scrape_criteria (Some 5) False always_ok
              [Settled 1 NotFound404, Settled 0 (Data (7::nat)), Settled 0 NoData, Settled 1 OtherError,
               Settled 0 NoData, Settled 1 NoData]
              (start_pool two_workers (Some 5))))
   \<and> workers (pool_run scrape_criteria (Some 5) False always_ok
              [Settled 1 NotFound404, Settled 0 (Data (7::nat)), Settled 0 NoData, Settled 1 OtherError,
               Settled 0 NoData, Settled 1 NoData]
              (start_pool two_workers (Some 5))) = [Exited, Exited]"
proof -
  have "claimed (pool_run scrape_criteria (Some 5) False always_ok
              [Settled 1 NotFound404, Settled 0 (Data (7::nat)), Settled 0 NoData, Settled 1 OtherError,
               Settled 0 NoData, Settled 1 NoData]
              (start_pool two_workers (Some 5))) = [1, 2, 3, 4, 5]"
    "workers (pool_run scrape_criteria (Some 5) False always_ok
              [Settled 1 NotFound404, Settled 0 (Data (7::nat)), Settled 0 NoData, Settled 1 OtherError,
               Settled 0 NoData, Settled 1 NoData]
              (start_pool two_workers (Some 5))) = [Exited, Exited]"
    by code_simp+
  with claims_distinct_exit_condition
    [of scrape_criteria "Some 5" False always_ok
        "[Settled 1 NotFound404, Settled 0 (Data (7::nat)), Settled 0 NoData, Settled 1 OtherError,
          Settled 0 NoData, Settled 1 NoData]" two_workers]
  show ?thesis by simp
qed

text \<open>
  C10 (as amended). With \<open>maxId = 0\<close> and \<open>findMaxId\<close> not set, \<open>actualMaxId\<close> is 0, the
  bound test is false for every value of \<open>nextId\<close>, and a worker at the head of its loop
  claims \<open>nextId\<close> as long as the stop flag is not set: the bound is treated as absent.
  With \<open>maxId = 0\<close> and \<open>findMaxId\<close> set, \<open>actualMaxId\<close> is the result of
  \<open>findMaxWhiskyId\<close>, and when that is not 0 no claimed ID of any run exceeds it. With a
  strictly positive \<open>maxId\<close>, \<open>actualMaxId\<close> is \<open>maxId\<close>, whatever \<open>findMaxId\<close>, and no
  claimed ID of any run exceeds it.
\<close>

theorem zero_maxId_is_no_bound:
  "(maxId opts = Some 0 \<and> \<not> findMaxId opts \<longrightarrow>
      actualMaxId opts found = Some 0 \<and> \<not> bound_reached (actualMaxId opts found) n)
   \<and> (\<not> shouldStop s \<and> i < length (workers s) \<longrightarrow>
        workers (claim_next (Some 0) s i) ! i = Fetching (nextId s))
   \<and> (maxId opts = Some 0 \<and> findMaxId opts \<longrightarrow>
        actualMaxId opts found = Some found
        \<and> (found \<noteq> 0 \<longrightarrow>
             (\<forall>c\<in>set (claimed (pool_run cr (actualMaxId opts found) dry ok es
                                (start_pool opts (actualMaxId opts found)))). c \<le> found)))
   \<and> (maxId opts = Some m \<and> 0 < m \<longrightarrow>
        actualMaxId opts found = Some m
        \<and> (\<forall>c\<in>set (claimed (pool_run cr (actualMaxId opts found) dry ok es
                           (start_pool opts (actualMaxId opts found)))). c \<le> m))"
proof -
  have "\<forall>c\<in>set (claimed (pool_run cr (Some b) dry ok es (start_pool opts (Some b)))). c \<le> b"
    if "b \<noteq> 0" for b
    using reachable_inv [of "Some b" cr dry ok es opts] that
    by (simp add: claim_inv_def truthy_def list_all_iff)
  from this [of m] this [of found] show ?thesis
    by (simp add: actualMaxId_def claim_next_def bound_reached_def truthy_def)
qed

theorem zero_maxId_is_no_bound_witness:
  "maxId (one_worker (Some 0)) = Some 0 \<and> \<not> findMaxId (one_worker (Some 0))
   \<and> actualMaxId (one_worker (Some 0)) 9 = Some 0
   \<and> \<not> bound_reached (actualMaxId (one_worker (Some 0)) 9) 1000000
   \<and> claimed (pool_run scrape_criteria (Some 0) False always_ok
         [Settled 0 NoData, Settled 0 (Data (7::nat)), Settled 0 OtherError]
         (start_pool (one_worker (Some 0)) (Some 0))) = [1, 2, 3, 4]
   \<and> maxId find_from_zero = Some 0 \<and> findMaxId find_from_zero
   \<and> actualMaxId find_from_zero 2 = Some 2
   \<and> claimed (pool_run scrape_criteria (actualMaxId find_from_zero 2) False always_ok
         [Settled 0 NoData, Settled 0 (Data (7::nat)), Settled 0 OtherError]
         (start_pool find_from_zero (actualMaxId find_from_zero 2))) = [1, 2]
   \<and> maxId (one_worker (Some 2)) = Some 2 \<and> (0::int) < 2
   \<and> claimed (pool_run scrape_criteria (Some 2) False always_ok
         [Settled 0 NoData, Settled 0 (Data (7::nat)), Settled 0 OtherError]
         (start_pool (one_worker (Some 2)) (Some 2))) = [1, 2]"
proof -
  have c: "claimed (pool_run scrape_criteria (Some 0) False always_ok
         [Settled 0 NoData, Settled 0 (Data (7::nat)), Settled 0 OtherError]
         (start_pool (one_worker (Some 0)) (Some 0))) = [1, 2, 3, 4]"
    "claimed (pool_run scrape_criteria (Some 2) False always_ok
         [Settled 0 NoData, Settled 0 (Data (7::nat)), Settled 0 OtherError]
         (start_pool (one_worker (Some 2)) (Some 2))) = [1, 2]"
    "claimed (pool_run scrape_criteria (Some 2) False always_ok
         [Settled 0 NoData, Settled 0 (Data (7::nat)), Settled 0 OtherError]
         (start_pool find_from_zero (Some 2))) = [1, 2]"
    by code_simp+
  have h: "maxId (one_worker (Some 0)) = Some 0 \<and> \<not> findMaxId (one_worker (Some 0))"
    by (simp add: one_worker_def)
  then have a: "actualMaxId (one_worker (Some 0)) 9 = Some 0
             \<and> \<not> bound_reached (actualMaxId (one_worker (Some 0)) 9) 1000000"
    using zero_maxId_is_no_bound
         [where opts = "one_worker (Some 0)" and found = 9 and n = 1000000 and m = 2 and i = 0
            and s = "start_pool (one_worker (Some 0)) (Some 0) :: nat pool"
            and cr = scrape_criteria and dry = False and ok = always_ok and es = "[]"]
    by blast
  have g: "maxId find_from_zero = Some 0 \<and> findMaxId find_from_zero"
    by (simp add: find_from_zero_def)
  then have b: "actualMaxId find_from_zero 2 = Some 2"
    using zero_maxId_is_no_bound
         [where opts = find_from_zero and found = 2 and n = 1000000 and m = 2 and i = 0
            and s = "start_pool find_from_zero (Some 2) :: nat pool"
            and cr = scrape_criteria and dry = False and ok = always_ok and es = "[]"]
    by blast
  have k: "maxId (one_worker (Some 2)) = Some 2 \<and> (0::int) < 2" by (simp add: one_worker_def)
  from a b c h g k show ?thesis by (simp add: bound_reached_def truthy_def)
qed

text \<open>
  C10 as stated fails when \<open>findMaxId\<close> is set: \<open>maxId = 0\<close> is falsy in
  \<open>findMaxId && !maxId\<close> too, so \<open>scrape\<close> runs \<open>findMaxWhiskyId\<close> and the pool is bounded
  by its result. On the source where exactly the IDs 1 to 3 exist the finder returns 3, and
  the worker claims the IDs 1, 2, 3 and returns at the bound with the stop flag unset.
\<close>

theorem zero_maxId_bounded_by_finder:
  "maxId find_from_zero = Some 0
   \<and> map_option (actualMaxId find_from_zero)
        (findMaxWhiskyId scrape_criteria (synthetic 3) (startId find_from_zero)) = Some (Some 3)
   \<and> claimed (pool_run scrape_criteria (Some 3) False always_ok
         [Settled 0 (Data (7::nat)), Settled 0 (Data 8), Settled 0 (Data 9)]
         (start_pool find_from_zero (Some 3))) = [1, 2, 3]
   \<and> all_exited (pool_run scrape_criteria (Some 3) False always_ok
         [Settled 0 (Data (7::nat)), Settled 0 (Data 8), Settled 0 (Data 9)]
         (start_pool find_from_zero (Some 3)))
   \<and> \<not> shouldStop (pool_run scrape_criteria (Some 3) False always_ok
         [Settled 0 (Data (7::nat)), Settled 0 (Data 8), Settled 0 (Data 9)]
         (start_pool find_from_zero (Some 3)))"
proof -
  have "findMaxWhiskyId scrape_criteria (synthetic 3) 1 = Some 3"
    by (rule findMax_synthetic) (simp_all add: scrape_criteria_def)
  then have "map_option (actualMaxId find_from_zero)
        (findMaxWhiskyId scrape_criteria (synthetic 3) (startId find_from_zero)) = Some (Some 3)"
    by (simp add: find_from_zero_def actualMaxId_def truthy_def)
  moreover have "maxId find_from_zero = Some 0" by (simp add: find_from_zero_def)
  moreover have "claimed (pool_run scrape_criteria (Some 3) False always_ok
         [Settled 0 (Data (7::nat)), Settled 0 (Data 8), Settled 0 (Data 9)]
         (start_pool find_from_zero (Some 3))) = [1, 2, 3]"
    "all_exited (pool_run scrape_criteria (Some 3) False always_ok
         [Settled 0 (Data (7::nat)), Settled 0 (Data 8), Settled 0 (Data 9)]
         (start_pool find_from_zero (Some 3)))"
    "\<not> shouldStop (pool_run scrape_criteria (Some 3) False always_ok
         [Settled 0 (Data (7::nat)), Settled 0 (Data 8), Settled 0 (Data 9)]
         (start_pool find_from_zero (Some 3)))"
    by code_simp+
  ultimately show ?thesis by blast
qed

subsection \<open>Order of arrival in the pool\<close>

text \<open>
  The IDs in the log and the IDs being scraped are, counted with multiplicity, among
  the claimed IDs; so the IDs of the log are pairwise distinct.
\<close>

definition fetch_of :: "worker \<Rightarrow> int multiset" where
  "fetch_of w = (case w of Fetching c \<Rightarrow> {#c#} | Idle \<Rightarrow> {#} | Exited \<Rightarrow> {#})"

definition in_flight :: "worker list \<Rightarrow> int multiset" where
  "in_flight ws = sum_list (map fetch_of ws)"


lemma in_flight_nth: "i < length ws \<Longrightarrow> fetch_of (ws ! i) \<subseteq># in_flight ws"
proof (induction ws arbitrary: i)
  case Nil
  then show ?case by simp
next
  case (Cons w ws)
  show ?case
  proof (cases i)
    case 0
    then show ?thesis by (simp add: in_flight_def)
  next
    case (Suc j)
    with Cons.prems have "j < length ws" by simp
    from Cons.IH [OF this] Suc show ?thesis
      by (simp add: in_flight_def subset_mset.add_increasing)
  qed
qed

lemma in_flight_update:
  "i < length ws \<Longrightarrow> in_flight (ws[i := w]) + fetch_of (ws ! i) = in_flight ws + fetch_of w"
proof (induction ws arbitrary: i)
  case Nil
  then show ?case by simp
next
  case (Cons x xs)
  show ?case
  proof (cases i)
    case 0
    then show ?thesis by (simp add: in_flight_def)
  next
    case (Suc j)
    with Cons.prems have "j < length xs" by simp
    from Cons.IH [OF this] Suc show ?thesis
      by (simp add: in_flight_def add.assoc)
  qed
qed


definition log_inv :: "'r pool \<Rightarrow> bool" where
  "log_inv s = (mset (map fst (results s)) + in_flight (workers s) \<subseteq># mset (claimed s))"

definition log_pre :: "'r pool \<Rightarrow> nat \<Rightarrow> bool" where
  "log_pre s i =
     (mset (map fst (results s)) + in_flight (workers s)
        \<subseteq># mset (claimed s) + fetch_of (workers s ! i))"

lemma log_inv_pre: "log_inv s \<Longrightarrow> log_pre s i"
  by (simp add: log_inv_def log_pre_def subset_mset.add_increasing2)

lemma update_log:
  assumes "i < length (workers s)" and "log_pre s i"
    and "mset cl = mset (claimed s) + fetch_of w"
  shows "mset (map fst (results s)) + in_flight ((workers s)[i := w]) \<subseteq># mset cl"
proof -
  have "mset (map fst (results s)) + in_flight ((workers s)[i := w]) + fetch_of (workers s ! i)
          = mset (map fst (results s)) + in_flight (workers s) + fetch_of w"
    using in_flight_update [OF assms(1), of w] by (simp add: add.assoc)
  also have "\<dots> \<subseteq># mset (claimed s) + fetch_of (workers s ! i) + fetch_of w"
    using assms(2) by (simp add: log_pre_def)
  also have "\<dots> = mset cl + fetch_of (workers s ! i)"
    using assms(3) by (simp add: add.commute add.left_commute)
  finally show ?thesis by simp
qed

lemma claim_next_log:
  assumes "i < length (workers s)" and "log_pre s i"
  shows "log_inv (claim_next mx s i)"
proof (cases "shouldStop s \<or> bound_reached mx (nextId s)")
  case True
  have "mset (map fst (results s)) + in_flight ((workers s)[i := Exited]) \<subseteq># mset (claimed s)"
    using assms by (rule update_log) (simp add: fetch_of_def)
  with True show ?thesis by (auto simp: claim_next_def log_inv_def)
next
  case False
  have "mset (map fst (results s)) + in_flight ((workers s)[i := Fetching (nextId s)])
          \<subseteq># mset (claimed s @ [nextId s])"
    using assms by (rule update_log) (simp add: fetch_of_def)
  with False show ?thesis by (simp add: claim_next_def log_inv_def)
qed

lemma stop_check_log:
  assumes "i < length (workers s)" and "log_pre s i"
  shows "log_inv (stop_check cr mx s i)"
proof (cases "check_stop cr (results s)")
  case True
  have "mset (map fst (results s)) + in_flight ((workers s)[i := Exited]) \<subseteq># mset (claimed s)"
    using assms by (rule update_log) (simp add: fetch_of_def)
  with True show ?thesis by (simp add: stop_check_def log_inv_def)
next
  case False
  with claim_next_log [OF assms] show ?thesis by (simp add: stop_check_def)
qed

lemma record_log_pre:
  assumes "log_inv s" and "workers s ! i = Fetching c"
  shows "log_pre (record_result s c b) i"
    and "log_pre (record_result (s\<lparr>batchBuffer := bb\<rparr>) c b) i"
  using assms by (simp_all add: log_inv_def log_pre_def record_result_def fetch_of_def)

lemma record_result_workers [simp]:
  "workers (record_result s c b) = workers s"
  by (simp add: record_result_def)

lemma resume_log: "log_inv s \<Longrightarrow> log_inv (resume cr mx dry s i outcome)"
proof (cases "i < length (workers s)")
  case False
  assume "log_inv s"
  with False show ?thesis by (simp add: resume_def)
next
  case True
  assume inv: "log_inv s"
  show ?thesis
  proof (cases "workers s ! i")
    case Idle
    with inv True show ?thesis by (simp add: resume_def)
  next
    case Exited
    with inv True show ?thesis by (simp add: resume_def)
  next
    case (Fetching c)
    note pre = record_log_pre [OF inv Fetching]
    show ?thesis
    proof (cases outcome)
      case (Data d)
      with True Fetching pre show ?thesis
        by (simp add: resume_def stop_check_log)
    next
      case NoData
      with True Fetching pre show ?thesis
        by (simp add: resume_def claim_next_log)
    next
      case NotFound404
      with True Fetching pre show ?thesis
        by (simp add: resume_def stop_check_log)
    next
      case OtherError
      with True Fetching pre show ?thesis
        by (simp add: resume_def stop_check_log)
    qed
  qed
qed

lemma pool_step_log: "log_inv s \<Longrightarrow> log_inv (pool_step cr mx dry ok s e)"
  by (cases e) (simp_all add: resume_log, simp_all add: log_inv_def)

lemma pool_run_log: "log_inv s \<Longrightarrow> log_inv (pool_run cr mx dry ok es s)"
  unfolding pool_run_def by (induction es arbitrary: s) (simp_all add: pool_step_log)

lemma claim_next_length [simp]: "length (workers (claim_next mx s i)) = length (workers s)"
  by (simp add: claim_next_def)

lemma foldl_claim_log:
  "log_inv s \<Longrightarrow> \<forall>i\<in>set is. i < length (workers s) \<Longrightarrow> log_inv (foldl (claim_next mx) s is)"
proof (induction "is" arbitrary: s)
  case Nil
  then show ?case by simp
next
  case (Cons i "is")
  have "log_inv (claim_next mx s i)"
    using Cons.prems by (intro claim_next_log log_inv_pre) simp_all
  moreover have "\<forall>j\<in>set is. j < length (workers (claim_next mx s i))"
    using Cons.prems(2) by simp
  ultimately show ?case using Cons.IH by simp
qed

lemma in_flight_idle: "in_flight (replicate n Idle) = {#}"
  by (induction n) (simp_all add: in_flight_def fetch_of_def)

lemma start_pool_log: "log_inv (start_pool opts mx)"
  unfolding start_pool_def
  by (rule foldl_claim_log) (simp_all add: log_inv_def in_flight_idle)

lemma sub_distinct: "mset xs \<subseteq># mset ys \<Longrightarrow> distinct ys \<Longrightarrow> distinct xs"
proof (induction xs)
  case Nil
  then show ?case by simp
next
  case (Cons x xs)
  have "mset xs \<subseteq># mset (x # xs)" by simp
  then have "mset xs \<subseteq># mset ys" using Cons.prems(1) by (rule subset_mset.order_trans)
  then have d: "distinct xs" using Cons.prems(2) by (rule Cons.IH)
  have "count (mset (x # xs)) x \<le> count (mset ys) x"
    using Cons.prems(1) by (rule mset_subset_eq_count)
  moreover have "count (mset ys) x \<le> 1"
    using Cons.prems(2) by (simp add: distinct_count_atmost_1)
  moreover have "count (mset (x # xs)) x = Suc (count (mset xs) x)" by simp
  ultimately have "count (mset xs) x = 0" by linarith
  then have "x \<notin> set xs" by (simp add: count_eq_zero_iff)
  with d show ?case by simp
qed

lemma pool_log_distinct:
  "distinct (map fst (results (pool_run cr mx dry ok es (start_pool opts mx))))"
proof -
  define s where "s = pool_run cr mx dry ok es (start_pool opts mx :: 'a pool)"
  have "log_inv s" unfolding s_def by (rule pool_run_log [OF start_pool_log])
  then have "mset (map fst (results s)) \<subseteq># mset (claimed s)"
    unfolding log_inv_def by (rule subset_mset.order_trans [rotated]) simp
  moreover have "distinct (claimed s)"
    using reachable_inv [of mx cr dry ok es opts] by (simp add: claim_inv_def s_def)
  ultimately show ?thesis unfolding s_def [symmetric] by (rule sub_distinct)
qed

text \<open>
  A run of two workers in which the outcome of ID 2 arrives before that of ID 1.
\<close>

definition small_criteria :: criteria where
  "small_criteria = \<lparr>minConsecutive404s = 2, windowSize = 3, min404Rate = 6 / 10\<rparr>"

definition out_of_order_run :: "nat pool" where
  "out_of_order_run =
     pool_run small_criteria None True always_ok
       [Settled 1 NotFound404, Settled 0 (Data 7), Settled 1 NotFound404]
       (start_pool \<lparr>startId = 1, maxId = None, dryRun = True, findMaxId = False, concurrency = 2\<rparr> None)"

text \<open>
  C2 (as amended). The stopping decision of the live worker pool does not depend on the
  order in which outcomes arrived: two logs holding the same entries, with pairwise
  distinct IDs, give the same decision, and the log of every run of the pool has
  pairwise distinct IDs. The two phases of \<open>findMaxWhiskyId\<close> are not covered: they
  keep no IDs and decide on arrival order.
\<close>

theorem pool_decision_order_independent:
  "(mset xs = mset ys \<and> distinct (map fst xs) \<longrightarrow> check_stop cr xs = check_stop cr ys)
   \<and> distinct (map fst (results (pool_run cr mx dry ok es (start_pool opts mx))))
   \<and> (mset (results (pool_run cr mx dry ok es (start_pool opts mx))) = mset zs \<longrightarrow>
        check_stop cr (results (pool_run cr mx dry ok es (start_pool opts mx))) = check_stop cr zs)"
  using check_stop_perm [of xs ys cr]
    check_stop_perm [of "results (pool_run cr mx dry ok es (start_pool opts mx))" zs cr]
    pool_log_distinct [of cr mx dry ok es opts]
  by blast

theorem pool_decision_order_independent_witness:
  "results out_of_order_run = [(2, True), (1, False), (3, True)]
   \<and> mset (results out_of_order_run) = mset [(1, False), (2, True), (3, True)]
   \<and> distinct (map fst (results out_of_order_run))
   \<and> check_stop small_criteria (results out_of_order_run)
       = check_stop small_criteria [(1, False), (2, True), (3, True)]
   \<and> check_stop small_criteria [(1, False), (2, True), (3, True)]
   \<and> shouldStop out_of_order_run"
proof -
  have r: "results out_of_order_run = [(2, True), (1, False), (3, True)]"
    and s: "shouldStop out_of_order_run"
    and c: "check_stop small_criteria [(1, False), (2, True), (3, True)]"
    by code_simp+
  have m: "mset (results out_of_order_run) = mset [(1, False), (2, True), (3, True)]"
    unfolding r by simp
  have d: "distinct (map fst (results out_of_order_run))"
    unfolding r by simp
  from pool_decision_order_independent
    [where xs = "results out_of_order_run" and ys = "[(1, False), (2, True), (3, True)]"
       and cr = small_criteria] m d
  have "check_stop small_criteria (results out_of_order_run)
          = check_stop small_criteria [(1, False), (2, True), (3, True)]"
    by blast
  with r m d c s show ?thesis by simp
qed

text \<open>
  C2 as stated fails for \<open>findMaxWhiskyId\<close>. The outcomes of IDs 1, 2, 3 (Found,
  NotFound, NotFound) recorded in the order 1, 2, 3 meet the criteria
  (thresholds 2, 3, 0.6); the same outcomes recorded in the order 2, 1, 3 do not.
\<close>

theorem boundary_decision_order_dependent:
  "mset [(1::int, False), (2, True), (3, True)] = mset [(2, True), (1, False), (3, True)]
   \<and> criteria_met \<lparr>minConsecutive404s = 2, windowSize = 3, min404Rate = 6 / 10\<rparr>
        (record_all \<lparr>minConsecutive404s = 2, windowSize = 3, min404Rate = 6 / 10\<rparr>
           [(1, False), (2, True), (3, True)])
   \<and> \<not> criteria_met \<lparr>minConsecutive404s = 2, windowSize = 3, min404Rate = 6 / 10\<rparr>
        (record_all \<lparr>minConsecutive404s = 2, windowSize = 3, min404Rate = 6 / 10\<rparr>
           [(2, True), (1, False), (3, True)])"
  by (simp add: record_all_def criteria_met_def record_outcome_def tracker0_def
        push_window_def rate_ge_def)

subsection \<open>Application errors\<close>

lemma resume_flag:
  "shouldStop (resume cr mx dry s i outcome)
     \<Longrightarrow> shouldStop s \<or> check_stop cr (results (resume cr mx dry s i outcome))"
  by (auto simp: resume_def stop_check_def claim_next_def record_result_def
        split: if_splits worker.splits scraped.splits)

text \<open>
  A log without a NotFound entry never meets the criteria (the trailing run is empty), so a
  run of one worker over IDs 1 to \<open>n\<close> in which every scrape fails with an application
  error claims every ID up to the bound and exits there with the stop flag unset, for every
  \<open>n\<close>: no number of consecutive errors ends the run.
\<close>

lemma trailing_none: "\<forall>r\<in>set w. \<not> snd r \<Longrightarrow> trailingNotFound w = 0"
  by (cases "rev w") (auto simp: trailingNotFound_def)

lemma set_slice_last: "set (slice_last n xs) \<subseteq> set xs"
  by (auto simp: slice_last_def dest: in_set_dropD)

lemma no_404_no_stop:
  assumes "0 < minConsecutive404s cr" and "\<forall>r\<in>set rs. \<not> snd r"
  shows "\<not> check_stop cr rs"
proof
  assume c: "check_stop cr rs"
  define w where "w = slice_last (windowSize cr) (sort_key fst rs)"
  have "set w \<subseteq> set rs" unfolding w_def using set_slice_last [of "windowSize cr" "sort_key fst rs"] by simp
  with assms(2) have "\<forall>r\<in>set w. \<not> snd r" by blast
  then have "trailingNotFound w = 0" by (rule trailing_none)
  moreover from c have "window_decision cr w"
    by (simp add: check_stop_def w_def split: if_splits)
  then have "minConsecutive404s cr \<le> trailingNotFound w"
    by (simp add: window_decision_def count_trailing_full)
  ultimately show False using assms(1) by simp
qed

lemma errors_run:
  assumes pos: "0 < minConsecutive404s cr"
  shows "workers s = [Fetching c] \<Longrightarrow> nextId s = c + 1 \<Longrightarrow> \<not> shouldStop s \<Longrightarrow>
         \<forall>r\<in>set (results s). \<not> snd r \<Longrightarrow> c \<le> n \<Longrightarrow> n \<noteq> 0 \<Longrightarrow> j = nat (n - c) \<Longrightarrow>
         workers (pool_run cr (Some n) dry ok (errors_only (Suc j)) s) = [Exited]
         \<and> \<not> shouldStop (pool_run cr (Some n) dry ok (errors_only (Suc j)) s)
         \<and> results (pool_run cr (Some n) dry ok (errors_only (Suc j)) s)
             = results s @ map (\<lambda>k. (c + int k, False)) [0..<Suc j]"
proof (induction j arbitrary: s c)
  case 0
  then have cn: "c = n" by simp
  define t where "t = record_result s c False"
  have "\<not> check_stop cr (results t)"
    using pos "0.prems"(4) by (intro no_404_no_stop) (auto simp: t_def record_result_def)
  then have "resume cr (Some n) dry s 0 OtherError = t\<lparr>workers := [Exited]\<rparr>"
    using "0.prems"(1,2,3,6) cn
    by (simp add: resume_def stop_check_def claim_next_def bound_reached_def truthy_def
          t_def record_result_def)
  then show ?case
    using "0.prems"(3) by (simp add: pool_run_def errors_only_def t_def record_result_def)
next
  case (Suc j)
  then have cn: "c < n" by simp
  define t where "t = record_result s c False"
  define s' where "s' = resume cr (Some n) dry s 0 OtherError"
  have "\<not> check_stop cr (results t)"
    using pos Suc.prems(4) by (intro no_404_no_stop) (auto simp: t_def record_result_def)
  then have s': "s' = t\<lparr>workers := [Fetching (c + 1)], claimed := claimed t @ [c + 1],
                       nextId := c + 2\<rparr>"
    using Suc.prems(1,2,3,6) cn
    by (simp add: s'_def resume_def stop_check_def claim_next_def bound_reached_def truthy_def
          t_def record_result_def)
  have "workers s' = [Fetching (c + 1)]" "nextId s' = (c + 1) + 1" "\<not> shouldStop s'"
    "\<forall>r\<in>set (results s'). \<not> snd r" "c + 1 \<le> n" "j = nat (n - (c + 1))"
    using Suc.prems cn by (auto simp: s' t_def record_result_def)
  from Suc.IH [OF this(1,2,3,4,5) Suc.prems(6) this(6)]
  have "workers (pool_run cr (Some n) dry ok (errors_only (Suc j)) s') = [Exited]
         \<and> \<not> shouldStop (pool_run cr (Some n) dry ok (errors_only (Suc j)) s')
         \<and> results (pool_run cr (Some n) dry ok (errors_only (Suc j)) s')
             = results s' @ map (\<lambda>k. (c + 1 + int k, False)) [0..<Suc j]" .
  moreover have "pool_run cr (Some n) dry ok (errors_only (Suc (Suc j))) s
                   = pool_run cr (Some n) dry ok (errors_only (Suc j)) s'"
    by (simp add: pool_run_def errors_only_def s'_def)
  moreover have "results s' = results s @ [(c, False)]"
    by (simp add: s' t_def record_result_def)
  moreover have "map (\<lambda>k. (c + int k, False)) [0..<Suc (Suc j)]
                   = (c, False) # map (\<lambda>k. (c + 1 + int k, False)) [0..<Suc j]"
    by (subst map_upt_Suc) (simp add: add.assoc)
  ultimately show ?case by simp
qed

lemma all_errors_complete:
  assumes "0 < minConsecutive404s cr" and "0 < n"
  shows "all_exited (pool_run cr (Some (int n)) dry ok (errors_only n)
                       (start_pool (one_worker (Some (int n))) (Some (int n))))
         \<and> \<not> shouldStop (pool_run cr (Some (int n)) dry ok (errors_only n)
                       (start_pool (one_worker (Some (int n))) (Some (int n))))
         \<and> results (pool_run cr (Some (int n)) dry ok (errors_only n)
                       (start_pool (one_worker (Some (int n))) (Some (int n))))
             = map (\<lambda>k. (1 + int k, False)) [0..<n]"
proof -
  define s :: "nat pool" where "s = start_pool (one_worker (Some (int n))) (Some (int n))"
  define j where "j = n - 1"
  have n: "Suc j = n" using assms(2) by (simp add: j_def)
  have s: "workers s = [Fetching 1]" "nextId s = 1 + 1" "\<not> shouldStop s"
    and r: "results s = []"
    using assms(2)
    by (simp_all add: s_def start_pool_def one_worker_def claim_next_def bound_reached_def truthy_def)
  have a: "\<forall>r\<in>set (results s). \<not> snd r" by (simp add: r)
  have b: "1 \<le> int n" "int n \<noteq> 0" "j = nat (int n - 1)" using assms(2) by (simp_all add: j_def)
  from errors_run [OF assms(1) s a b, of dry ok]
  have "workers (pool_run cr (Some (int n)) dry ok (errors_only n) s) = [Exited]
         \<and> \<not> shouldStop (pool_run cr (Some (int n)) dry ok (errors_only n) s)
         \<and> results (pool_run cr (Some (int n)) dry ok (errors_only n) s)
             = results s @ map (\<lambda>k. (1 + int k, False)) [0..<n]"
    unfolding n .
  then show ?thesis unfolding s_def [symmetric] by (simp add: all_exited_def r)
qed

text \<open>
  The end of a run. The log holds at least as many entries as it holds entries that are
  not a 404, so when \<open>Math.max\<close> throws in the \<open>try\<close> block it throws in the \<open>catch\<close>
  block too.
\<close>

lemma finish_status:
  "map_option status (snd (finish argLimit opts ok s))
     = (if \<not> dryRun opts \<and> length (filter (\<lambda>r. \<not> snd r) (results s)) \<le> argLimit
        then Some ''completed'' else None)"
proof -
  have "argLimit < length (results s)"
    if "argLimit < length (filter (\<lambda>r. \<not> snd r) (results s))"
    using that length_filter_le [of "\<lambda>r. \<not> snd r" "results s"] by (rule less_le_trans)
  moreover have "results s \<noteq> []" if "filter (\<lambda>r. \<not> snd r) (results s) \<noteq> []"
    using that by auto
  ultimately show ?thesis
    by (auto simp: finish_def fatal_def math_max_def Let_def)
qed

lemma fatal_status:
  "map_option status (snd (fatal argLimit opts ok message s))
     = (if \<not> dryRun opts \<and> length (results s) \<le> argLimit then Some ''error'' else None)"
  by (auto simp: fatal_def math_max_def Let_def)

lemma finish_errors_only:
  assumes "0 < n" and "results s = map (\<lambda>k. (1 + int k, False)) [0..<n]"
  shows "snd (finish argLimit (one_worker mx) ok s)
           = (if n \<le> argLimit
              then Some \<lparr>lastProcessedId = int n, status = ''completed'', errorMessage = None\<rparr>
              else None)"
proof -
  have f: "map fst (filter (\<lambda>r. \<not> snd r) (results s)) = map (\<lambda>k. 1 + int k) [0..<n]"
    by (simp add: assms(2) filter_map comp_def)
  have ne: "map (\<lambda>k. 1 + int k) [0..<n] \<noteq> []" using assms(1) by simp
  have "Max (set (map (\<lambda>k. 1 + int k) [0..<n])) = int n"
  proof (rule Max_eqI)
    show "finite (set (map (\<lambda>k. 1 + int k) [0..<n]))" by simp
    show "y \<le> int n" if "y \<in> set (map (\<lambda>k. 1 + int k) [0..<n])" for y
      using that by auto
    have "n - 1 \<in> set [0..<n]" using assms(1) by simp
    moreover have "1 + int (n - 1) = int n" using assms(1) by simp
    ultimately show "int n \<in> set (map (\<lambda>k. 1 + int k) [0..<n])"
      by (metis (mono_tags, lifting) image_eqI set_map)
  qed
  moreover have "results s \<noteq> []" using assms by simp
  moreover have "length (results s) = n" using assms(2) by simp
  ultimately show ?thesis
    unfolding finish_def fatal_def Let_def f using ne
    by (simp add: math_max_def one_worker_def)
qed

text \<open>
  C4 (as amended). An application error is handled as a successful scrape is in dry-run
  mode: recorded as not a 404, counted, followed by the stopping check and the next
  claim. No turn sets the stop flag unless the 404 criteria hold on the log. A run of one
  worker over IDs 1 to \<open>n\<close> in which every scrape fails with an application error
  processes all \<open>n\<close> IDs and leaves the stop flag unset; its end writes
  \<open>status = completed\<close> with \<open>lastProcessedId = n\<close> when \<open>n\<close> is at most the number of
  arguments the engine accepts in a call, and no progress row otherwise. In general the
  end of a run writes \<open>status = completed\<close> exactly when the run is not a dry run and the
  entries of the log that are not a 404 fit in one call of \<open>Math.max\<close>, and never
  \<open>status = error\<close>; the \<open>catch\<close> block writes \<open>status = error\<close> exactly when the run is
  not a dry run and the whole log fits in one call. There is no error counter in the
  state.
\<close>

theorem error_outcome_continues:
  "resume cr mx dry s i OtherError = resume cr mx True s i (Data d)
   \<and> (shouldStop (resume cr mx dry s i outcome) \<longrightarrow>
        shouldStop s \<or> check_stop cr (results (resume cr mx dry s i outcome)))
   \<and> (0 < minConsecutive404s cr \<and> 0 < n \<longrightarrow>
        all_exited (pool_run cr (Some (int n)) dry ok (errors_only n)
                      (start_pool (one_worker (Some (int n))) (Some (int n))))
        \<and> \<not> shouldStop (pool_run cr (Some (int n)) dry ok (errors_only n)
                      (start_pool (one_worker (Some (int n))) (Some (int n))))
        \<and> results (pool_run cr (Some (int n)) dry ok (errors_only n)
                      (start_pool (one_worker (Some (int n))) (Some (int n))))
            = map (\<lambda>k. (1 + int k, False)) [0..<n]
        \<and> snd (finish argLimit (one_worker (Some (int n))) ok
                 (pool_run cr (Some (int n)) dry ok (errors_only n)
                    (start_pool (one_worker (Some (int n))) (Some (int n)))))
            = (if n \<le> argLimit
               then Some \<lparr>lastProcessedId = int n, status = ''completed'', errorMessage = None\<rparr>
               else None))
   \<and> map_option status (snd (finish argLimit opts ok s1))
       = (if \<not> dryRun opts \<and> length (filter (\<lambda>r. \<not> snd r) (results s1)) \<le> argLimit
          then Some ''completed'' else None)
   \<and> map_option status (snd (fatal argLimit opts ok message s1))
       = (if \<not> dryRun opts \<and> length (results s1) \<le> argLimit then Some ''error'' else None)"
proof -
  have a: "resume cr mx dry s i OtherError = resume cr mx True s i (Data d)"
    by (simp add: resume_def split: worker.splits)
  have c: "snd (finish argLimit (one_worker (Some (int n))) ok
                 (pool_run cr (Some (int n)) dry ok (errors_only n)
                    (start_pool (one_worker (Some (int n))) (Some (int n)))))
            = (if n \<le> argLimit
               then Some \<lparr>lastProcessedId = int n, status = ''completed'', errorMessage = None\<rparr>
               else None)"
    if "0 < minConsecutive404s cr" and "0 < n"
    using all_errors_complete [OF that, of dry ok] by (intro finish_errors_only [OF that(2)]) blast
  show ?thesis
    using a c resume_flag [of cr mx dry s i outcome] all_errors_complete [of cr n dry ok]
      finish_status [of argLimit opts ok s1] fatal_status [of argLimit opts ok message s1]
    by blast
qed

theorem error_outcome_continues_witness:
  "resume scrape_criteria (Some 12) False (start_pool (one_worker (Some 12)) (Some 12)) 0 OtherError
     = resume scrape_criteria (Some 12) True (start_pool (one_worker (Some 12)) (Some 12)) 0 (Data (7::nat))
   \<and> \<not> shouldStop (resume scrape_criteria (Some 12) False
           (start_pool (one_worker (Some 12)) (Some 12) :: nat pool) 0 OtherError)
   \<and> 0 < minConsecutive404s scrape_criteria
   \<and> all_exited twelve_errors \<and> \<not> shouldStop twelve_errors
   \<and> map snd (results twelve_errors) = replicate 12 False
   \<and> snd (finish 100000 (one_worker (Some 12)) always_ok twelve_errors)
       = Some \<lparr>lastProcessedId = 12, status = ''completed'', errorMessage = None\<rparr>
   \<and> map_option status (snd (fatal 100000 (one_worker (Some 12)) always_ok ''boom'' twelve_errors))
       = Some ''error''"
proof -
  have n: "\<not> shouldStop (resume scrape_criteria (Some 12) False
           (start_pool (one_worker (Some 12)) (Some 12) :: nat pool) 0 OtherError)"
    by code_simp
  have p: "0 < minConsecutive404s scrape_criteria \<and> 0 < (12::nat)"
    by (simp add: scrape_criteria_def)
  have i: "int 12 = 12" by simp
  have d: "\<not> dryRun (one_worker (Some 12))" by (simp add: one_worker_def)
  note th = error_outcome_continues
    [where cr = scrape_criteria and mx = "Some 12" and dry = False and i = 0 and d = 7
       and s = "start_pool (one_worker (Some 12)) (Some 12) :: nat pool"
       and outcome = OtherError and opts = "one_worker (Some 12)" and ok = always_ok
       and message = "''boom''" and ?s1.0 = twelve_errors and n = 12 and argLimit = 100000,
     unfolded i, folded twelve_errors_def]
  from th have a: "resume scrape_criteria (Some 12) False (start_pool (one_worker (Some 12)) (Some 12)) 0 OtherError
     = resume scrape_criteria (Some 12) True (start_pool (one_worker (Some 12)) (Some 12)) 0 (Data (7::nat))"
    by blast
  from th p have r: "all_exited twelve_errors" "\<not> shouldStop twelve_errors"
    "results twelve_errors = map (\<lambda>k. (1 + int k, False)) [0..<12]"
    "snd (finish 100000 (one_worker (Some 12)) always_ok twelve_errors)
       = (if (12::nat) \<le> 100000
          then Some \<lparr>lastProcessedId = 12, status = ''completed'', errorMessage = None\<rparr>
          else None)"
    by blast+
  from th have f: "map_option status (snd (fatal 100000 (one_worker (Some 12)) always_ok ''boom'' twelve_errors))
       = (if \<not> dryRun (one_worker (Some 12)) \<and> length (results twelve_errors) \<le> 100000
          then Some ''error'' else None)"
    by blast
  have "map snd (results twelve_errors) = replicate 12 False"
    unfolding r(3) by code_simp
  moreover have "length (results twelve_errors) \<le> 100000" unfolding r(3) by simp
  ultimately show ?thesis using a n p r(1,2,4) f d by simp
qed

text \<open>
  C4 as stated fails: one worker, IDs 1 to 12, every scrape failing with an application
  error. The pool does not abort: the worker processes all twelve IDs and returns at
  the bound, and the run ends with \<open>status = completed\<close> (on an engine that accepts
  100000 arguments in a call).
\<close>

theorem twelve_errors_complete:
  "all_exited twelve_errors \<and> \<not> shouldStop twelve_errors
   \<and> results twelve_errors
       = [(1, False), (2, False), (3, False), (4, False), (5, False), (6, False),
          (7, False), (8, False), (9, False), (10, False), (11, False), (12, False)]
   \<and> snd (finish 100000 (one_worker (Some 12)) always_ok twelve_errors)
       = Some \<lparr>lastProcessedId = 12, status = ''completed'', errorMessage = None\<rparr>"
proof -
  have r: "all_exited twelve_errors \<and> \<not> shouldStop twelve_errors
     \<and> results twelve_errors
       = [(1, False), (2, False), (3, False), (4, False), (5, False), (6, False),
          (7, False), (8, False), (9, False), (10, False), (11, False), (12, False)]"
    by code_simp
  have "[(1, False), (2, False), (3, False), (4, False), (5, False), (6, False),
          (7, False), (8, False), (9, False), (10, False), (11, False), (12, False)]
          = map (\<lambda>k. (1 + int k, False)) [0..<12]"
    by code_simp
  with r have "results twelve_errors = map (\<lambda>k. (1 + int k, False)) [0..<12]" by simp
  from finish_errors_only [OF _ this, of 100000 "Some 12" always_ok]
  have "snd (finish 100000 (one_worker (Some 12)) always_ok twelve_errors)
       = Some \<lparr>lastProcessedId = 12, status = ''completed'', errorMessage = None\<rparr>"
    by simp
  with r show ?thesis by blast
qed

text \<open>
  On an engine that accepts 12 arguments in a call, thirteen errors end the run with no
  progress row written.
\<close>

lemma thirteen_errors_overflow:
  "snd (finish 12 (one_worker (Some 13)) always_ok
          (pool_run scrape_criteria (Some 13) False always_ok (errors_only 13)
             (start_pool (one_worker (Some 13)) (Some 13)))) = None"
  by code_simp

end
